theory Spec2Isabelle
  imports Complex_Main "HOL-Library.AList"
begin

section \<open>The histogram engine of the metrics package\<close>

text \<open>
  The engine routes float64 observations into per-label-set arrays of buckets and
  estimates percentiles from the buckets' counts.

  Conventions of the embedding:
  \<^item> a \<open>float64\<close> is a \<open>real\<close>: finite values, no NaN, and arithmetic that does
    not round (\<open>math.Log2\<close>, \<open>math.Ceil\<close> and \<open>math.Pow\<close> are their real
    counterparts; the conversion of an \<open>int\<close> to \<open>float64\<close> is exact, as it is in Go
    up to \<open>2 ^ 53\<close>);
  \<^item> a Go \<open>int\<close> is an \<open>int\<close> (no wrap-around), a loop index that is never
    negative a \<open>nat\<close>, and \<open>int(x)\<close> of a float truncates toward zero;
  \<^item> a run-time panic is a value of \<open>panic\<close>, returned on the left of a sum;
  \<^item> the map \<open>values\<close> of the engine is an association list keyed by signature;
    its order stands for one of the iteration orders Go may choose;
  \<^item> the bucket factory is a function without effects: every call gives a bucket
    in the same initial state, and no two buckets share state;
  \<^item> the read/write mutex is left out: every operation runs alone.
\<close>

datatype panic =
    IndexOutOfRange
  | NilDereference
  | NegativeLength
  | UndefinedConversion
  | IllegalCondition

subsection \<open>Data model\<close>

text \<open>
  Modelled from the spec: the \<open>Bucket\<close> interface, which is declared in another
  file of the package. The engine calls \<open>Add\<close>, \<open>Observations\<close>, \<open>ValueForIndex\<close> and
  \<open>Reset\<close> on it; \<open>'b\<close> is the state of one bucket, and a method takes the state and
  returns the new one or the answer.
\<close>

record 'b Bucket =
  Bucket_Add :: "real \<Rightarrow> 'b \<Rightarrow> 'b"
  Observations :: "'b \<Rightarrow> int"
  ValueForIndex :: "'b \<Rightarrow> int \<Rightarrow> real"
  Reset :: "'b \<Rightarrow> 'b"

type_synonym LabelSet = "string \<rightharpoonup> string"

record 'b HistogramSpecification =
  BucketBuilder :: "unit \<Rightarrow> 'b"
  ReportablePercentiles :: "real list"
  Starts :: "real list"

record 'b histogramValue =
  buckets :: "'b list"
  labels :: LabelSet

record 'b histogram =
  bucketMaker :: "unit \<Rightarrow> 'b"
  bucketStarts :: "real list"
  values_map :: "(string \<times> 'b histogramValue) list"
  reportablePercentiles :: "real list"

subsection \<open>NewHistogram\<close>

definition NewHistogram :: "'b HistogramSpecification \<Rightarrow> 'b histogram" where
  "NewHistogram specification =
     \<lparr>bucketMaker = BucketBuilder specification,
      bucketStarts = Starts specification,
      values_map = [],
      reportablePercentiles = ReportablePercentiles specification\<rparr>"

subsection \<open>Add\<close>

text \<open>
  The routing loop of \<open>Add\<close>: \<open>i\<close> is the index of the boundary under inspection,
  \<open>lastIndex\<close> the index kept so far; the loop breaks at the first boundary above
  the value.
\<close>

fun lastIndexLoop :: "real list \<Rightarrow> nat \<Rightarrow> nat \<Rightarrow> real \<Rightarrow> nat" where
  "lastIndexLoop [] i lastIndex v = lastIndex"
| "lastIndexLoop (bucketStart # rest) i lastIndex v =
     (if v < bucketStart then lastIndex else lastIndexLoop rest (Suc i) i v)"

definition routedIndex :: "real list \<Rightarrow> real \<Rightarrow> nat" where
  "routedIndex starts v = lastIndexLoop starts 0 0 v"

text \<open>
  \<open>Add\<close> takes the signature function \<open>utility.LabelsToSignature\<close> (another package)
  and the bucket's methods as parameters. A \<open>nil\<close> label map is \<open>None\<close>. The series is
  stored in the map before the value is routed, so a panic leaves it there: the
  panic is returned with the engine as it then is.
\<close>

definition Add ::
  "(LabelSet \<Rightarrow> string) \<Rightarrow> 'b Bucket \<Rightarrow> 'b histogram \<Rightarrow> LabelSet option \<Rightarrow> real
     \<Rightarrow> (panic \<times> 'b histogram) + 'b histogram" where
  "Add LabelsToSignature B h labels0 v =
     (let labels1 = (case labels0 of None \<Rightarrow> Map.empty | Some l \<Rightarrow> l);
          signature = LabelsToSignature labels1;
          (h1, hv) =
            (case map_of (values_map h) signature of
               Some original \<Rightarrow> (h, original)
             | None \<Rightarrow>
                 (let bucketCount = length (bucketStarts h);
                      fresh = \<lparr>buckets = replicate bucketCount (bucketMaker h ()),
                               labels = labels1\<rparr>
                  in (h\<lparr>values_map := AList.update signature fresh (values_map h)\<rparr>, fresh)));
          lastIndex = routedIndex (bucketStarts h) v
      in if lastIndex < length (buckets hv)
         then Inr (h1\<lparr>values_map :=
                 AList.update signature
                   (hv\<lparr>buckets := (buckets hv)[lastIndex := Bucket_Add B v (buckets hv ! lastIndex)]\<rparr>)
                   (values_map h1)\<rparr>)
         else Inl (IndexOutOfRange, h1))"

subsection \<open>Percentile estimation\<close>

text \<open>
  \<open>previousCumulativeObservations\<close> is called from the second loop of
  \<open>bucketForPercentile\<close> only, with an index of the array.
\<close>

definition previousCumulativeObservations :: "int list \<Rightarrow> nat \<Rightarrow> int" where
  "previousCumulativeObservations cumulativeObservations bucketIndex =
     (if bucketIndex = 0 then 0 else cumulativeObservations ! (bucketIndex - 1))"

text \<open>Go's conversion \<open>int(x)\<close> of a float discards the fraction.\<close>

definition int_of_float64 :: "real \<Rightarrow> int" where
  "int_of_float64 x = (if 0 \<le> x then \<lfloor>x\<rfloor> else \<lceil>x\<rceil>)"

definition prospectiveIndexForPercentile :: "real \<Rightarrow> int \<Rightarrow> int" where
  "prospectiveIndexForPercentile percentile totalObservations =
     int_of_float64 (percentile * real_of_int (totalObservations - 1))"

text \<open>
  A pointer \<open>&histogram.buckets[i]\<close> is the index \<open>i\<close>, checked against the length
  of the bucket array where the source takes it. The panic at the end of
  \<open>nextNonEmptyBucketElement\<close> is \<open>IllegalCondition\<close>.
\<close>

function nextNonEmptyBucketElement ::
  "'b histogram \<Rightarrow> string \<Rightarrow> nat \<Rightarrow> nat \<Rightarrow> int list \<Rightarrow> panic + (nat \<times> int)" where
  "nextNonEmptyBucketElement h signature i bucketCount observationsByBucket =
     (if i < bucketCount then
        (if \<not> i < length observationsByBucket then Inl IndexOutOfRange
         else if observationsByBucket ! i = 0
           then nextNonEmptyBucketElement h signature (Suc i) bucketCount observationsByBucket
         else (case map_of (values_map h) signature of
                 None \<Rightarrow> Inl NilDereference
               | Some hv \<Rightarrow>
                   if i < length (buckets hv) then Inr (i, 0) else Inl IndexOutOfRange))
      else Inl IllegalCondition)"
  by pat_completeness auto
termination
  by (relation "measure (\<lambda>(h, signature, i, bucketCount, obs). bucketCount - i)") auto

text \<open>
  The first loop of \<open>bucketForPercentile\<close>: it fills the two arrays, both made with
  \<open>bucketCount\<close> zeros, and sums the counts. Writing past the end of an array panics.
\<close>

fun tallyLoop ::
  "'b Bucket \<Rightarrow> 'b list \<Rightarrow> nat \<Rightarrow> int list \<Rightarrow> int list \<Rightarrow> int
     \<Rightarrow> panic + (int list \<times> int list \<times> int)" where
  "tallyLoop B [] i observationsByBucket cumulativeObservationsByBucket totalObservations =
     Inr (observationsByBucket, cumulativeObservationsByBucket, totalObservations)"
| "tallyLoop B (bucket # rest) i observationsByBucket cumulativeObservationsByBucket totalObservations =
     (if \<not> i < length observationsByBucket then Inl IndexOutOfRange
      else if \<not> i < length cumulativeObservationsByBucket then Inl IndexOutOfRange
      else tallyLoop B rest (Suc i)
             (observationsByBucket[i := Observations B bucket])
             (cumulativeObservationsByBucket[i := totalObservations + Observations B bucket])
             (totalObservations + Observations B bucket))"

text \<open>
  The second loop: \<open>None\<close> when the loop ends without returning, \<open>Some\<close> of what it
  returns otherwise.
\<close>

function bucketSearch ::
  "'b histogram \<Rightarrow> string \<Rightarrow> 'b histogramValue \<Rightarrow> nat \<Rightarrow> int list \<Rightarrow> int list \<Rightarrow> int \<Rightarrow> nat
     \<Rightarrow> (panic + (nat \<times> int)) option" where
  "bucketSearch h signature hv bucketCount observationsByBucket cumulativeObservationsByBucket
       prospectiveIndex i =
     (if i < length cumulativeObservationsByBucket then
        (if cumulativeObservationsByBucket ! i = 0
           then bucketSearch h signature hv bucketCount observationsByBucket
                  cumulativeObservationsByBucket prospectiveIndex (Suc i)
         else if cumulativeObservationsByBucket ! i \<ge> prospectiveIndex
           then Some
             (if \<not> i < length observationsByBucket then Inl IndexOutOfRange
              else if observationsByBucket ! i =
                      prospectiveIndex - previousCumulativeObservations cumulativeObservationsByBucket i
                then nextNonEmptyBucketElement h signature (Suc i) bucketCount observationsByBucket
              else if i < length (buckets hv)
                then Inr (i, prospectiveIndex
                               - previousCumulativeObservations cumulativeObservationsByBucket i)
              else Inl IndexOutOfRange)
         else bucketSearch h signature hv bucketCount observationsByBucket
                cumulativeObservationsByBucket prospectiveIndex (Suc i))
      else None)"
  by pat_completeness auto
termination
  by (relation "measure (\<lambda>(h, signature, hv, bucketCount, obs, cum, idx, i). length cum - i)") auto

text \<open>
  \<open>bucketForPercentile\<close> up to the end of its second loop: a panic raised on the
  way, or what the second loop gives.
\<close>

definition bucketForPercentileLoops ::
  "'b Bucket \<Rightarrow> 'b histogram \<Rightarrow> string \<Rightarrow> real \<Rightarrow> panic + (panic + (nat \<times> int)) option" where
  "bucketForPercentileLoops B h signature percentile =
     (let bucketCount = length (bucketStarts h)
      in case map_of (values_map h) signature of
           None \<Rightarrow> Inl NilDereference
         | Some hv \<Rightarrow>
             (case tallyLoop B (buckets hv) 0 (replicate bucketCount 0) (replicate bucketCount 0) 0 of
                Inl e \<Rightarrow> Inl e
              | Inr (observationsByBucket, cumulativeObservationsByBucket, totalObservations) \<Rightarrow>
                  Inr (bucketSearch h signature hv bucketCount observationsByBucket
                         cumulativeObservationsByBucket
                         (prospectiveIndexForPercentile percentile totalObservations) 0)))"

text \<open>After the loop, the source returns \<open>&histogram.buckets[0], 0\<close>.\<close>

definition bucketForPercentile ::
  "'b Bucket \<Rightarrow> 'b histogram \<Rightarrow> string \<Rightarrow> real \<Rightarrow> panic + (nat \<times> int)" where
  "bucketForPercentile B h signature percentile =
     (case bucketForPercentileLoops B h signature percentile of
        Inl e \<Rightarrow> Inl e
      | Inr (Some r) \<Rightarrow> r
      | Inr None \<Rightarrow>
          (case map_of (values_map h) signature of
             None \<Rightarrow> Inl NilDereference
           | Some hv \<Rightarrow> if 0 < length (buckets hv) then Inr (0, 0) else Inl IndexOutOfRange))"

definition percentile :: "'b Bucket \<Rightarrow> 'b histogram \<Rightarrow> string \<Rightarrow> real \<Rightarrow> panic + real" where
  "percentile B h signature p =
     (case bucketForPercentile B h signature p of
        Inl e \<Rightarrow> Inl e
      | Inr (bucket, index) \<Rightarrow>
          (case map_of (values_map h) signature of
             None \<Rightarrow> Inl NilDereference
           | Some hv \<Rightarrow> Inr (ValueForIndex B (buckets hv ! bucket) index)))"

text \<open>The total a series reports: the sum of its buckets' counts.\<close>

definition seriesTotal :: "'b Bucket \<Rightarrow> 'b histogramValue \<Rightarrow> int" where
  "seriesTotal B hv = sum_list (map (Observations B) (buckets hv))"

subsection \<open>Sequences of calls\<close>

text \<open>
  A caller making one \<open>Add\<close> after the other; the sequence stops at the first call
  that panics.
\<close>

fun AddAll ::
  "(LabelSet \<Rightarrow> string) \<Rightarrow> 'b Bucket \<Rightarrow> 'b histogram \<Rightarrow> (LabelSet option \<times> real) list
     \<Rightarrow> (panic \<times> 'b histogram) + 'b histogram" where
  "AddAll LabelsToSignature B h [] = Inr h"
| "AddAll LabelsToSignature B h ((labels0, v) # calls) =
     (case Add LabelsToSignature B h labels0 v of
        Inl e \<Rightarrow> Inl e
      | Inr h1 \<Rightarrow> AddAll LabelsToSignature B h1 calls)"

subsection \<open>AsMarshallable\<close>

text \<open>
  The result is the slice stored under the value key: per series its labels and the
  map from each formatted percentile to its estimate. \<open>formatFloat\<close> depends on
  constants declared elsewhere and is a parameter. A panic of \<open>percentile\<close> ends the
  call.
\<close>

fun percentilesLoop ::
  "(real \<Rightarrow> string) \<Rightarrow> 'b Bucket \<Rightarrow> 'b histogram \<Rightarrow> string \<Rightarrow> real list
     \<Rightarrow> (string \<times> real) list \<Rightarrow> panic + (string \<times> real) list" where
  "percentilesLoop formatFloat B h signature [] intermediate = Inr intermediate"
| "percentilesLoop formatFloat B h signature (p # rest) intermediate =
     (case percentile B h signature p of
        Inl e \<Rightarrow> Inl e
      | Inr x \<Rightarrow>
          percentilesLoop formatFloat B h signature rest
            (AList.update (formatFloat p) x intermediate))"

fun seriesLoop ::
  "(real \<Rightarrow> string) \<Rightarrow> 'b Bucket \<Rightarrow> 'b histogram \<Rightarrow> (string \<times> 'b histogramValue) list
     \<Rightarrow> (LabelSet \<times> (string \<times> real) list) list
     \<Rightarrow> panic + (LabelSet \<times> (string \<times> real) list) list" where
  "seriesLoop formatFloat B h [] result = Inr result"
| "seriesLoop formatFloat B h ((signature, hv) # rest) result =
     (case percentilesLoop formatFloat B h signature (reportablePercentiles h) [] of
        Inl e \<Rightarrow> Inl e
      | Inr intermediate \<Rightarrow>
          seriesLoop formatFloat B h rest (result @ [(labels hv, intermediate)]))"

definition AsMarshallable ::
  "(real \<Rightarrow> string) \<Rightarrow> 'b Bucket \<Rightarrow> 'b histogram
     \<Rightarrow> panic + (LabelSet \<times> (string \<times> real) list) list" where
  "AsMarshallable formatFloat B h = seriesLoop formatFloat B h (values_map h) []"

subsection \<open>ResetAll\<close>

text \<open>
  The buckets of a removed series are no longer reachable from the engine, so what
  \<open>ResetAll\<close> does to them is recorded as a trace of effects, in the order the
  source performs them: each call of \<open>Reset\<close> with the signature, the index of the
  bucket and the state the bucket is left in, and each \<open>delete\<close> with the signature.
\<close>

datatype 'b effect =
    BucketReset string nat 'b
  | SeriesDeleted string

fun resetBuckets :: "'b Bucket \<Rightarrow> string \<Rightarrow> 'b list \<Rightarrow> nat \<Rightarrow> 'b effect list" where
  "resetBuckets B signature [] i = []"
| "resetBuckets B signature (bucket # rest) i =
     BucketReset signature i (Reset B bucket) # resetBuckets B signature rest (Suc i)"

fun ResetAllLoop ::
  "'b Bucket \<Rightarrow> (string \<times> 'b histogramValue) list \<Rightarrow> (string \<times> 'b histogramValue) list
     \<Rightarrow> 'b effect list \<Rightarrow> (string \<times> 'b histogramValue) list \<times> 'b effect list" where
  "ResetAllLoop B [] m trace = (m, trace)"
| "ResetAllLoop B ((signature, hv) # rest) m trace =
     ResetAllLoop B rest (AList.delete signature m)
       (trace @ resetBuckets B signature (buckets hv) 0 @ [SeriesDeleted signature])"

definition ResetAll :: "'b Bucket \<Rightarrow> 'b histogram \<Rightarrow> 'b histogram \<times> 'b effect list" where
  "ResetAll B h =
     (case ResetAllLoop B (values_map h) (values_map h) [] of
        (m, trace) \<Rightarrow> (h\<lparr>values_map := m\<rparr>, trace))"

subsection \<open>LogarithmicSizedBucketsFor\<close>

text \<open>
  The loop \<open>for i, j := 0, 0.0; i < bucketCount; i, j = i+1, math.Pow(2, float64(i+1.0))\<close>:
  the post statement computes the power from the old \<open>i\<close>. \<open>math.Log2\<close> of a number
  that is not positive is \<open>-Inf\<close> or NaN, and Go leaves the conversion of these to
  \<open>int\<close> to the implementation: \<open>UndefinedConversion\<close>. \<open>make\<close> with a negative length
  panics.
\<close>

function logarithmicLoop :: "nat \<Rightarrow> real \<Rightarrow> nat \<Rightarrow> real list \<Rightarrow> real list" where
  "logarithmicLoop i j bucketCount bucketList =
     (if i < bucketCount
      then logarithmicLoop (Suc i) (2 ^ Suc i) bucketCount (bucketList[i := j])
      else bucketList)"
  by pat_completeness auto
termination
  by (relation "measure (\<lambda>(i, j, bucketCount, bucketList). bucketCount - i)") auto

definition LogarithmicSizedBucketsFor :: "real \<Rightarrow> real \<Rightarrow> panic + real list" where
  "LogarithmicSizedBucketsFor lower upper =
     (if upper \<le> 0 then Inl UndefinedConversion
      else if \<lceil>log 2 upper\<rceil> < 0 then Inl NegativeLength
      else Inr (logarithmicLoop 0 0 (nat \<lceil>log 2 upper\<rceil>) (replicate (nat \<lceil>log 2 upper\<rceil>) 0)))"

subsection \<open>An exact-storage bucket\<close>

text \<open>
  Modelled from the spec: a bucket of the exact-storage strategy, which is
  implemented in another file of the package. It keeps every value in the order of arrival, counts them, and
  answers \<open>ValueForIndex i\<close> with the value added at position \<open>i\<close>, for
  \<open>0 \<le> i < count\<close>; outside this range the contract promises nothing (here 0).
\<close>

definition ExactBucket :: "real list Bucket" where
  "ExactBucket =
     \<lparr>Bucket_Add = (\<lambda>v b. b @ [v]),
      Observations = (\<lambda>b. int (length b)),
      ValueForIndex = (\<lambda>b i. if 0 \<le> i \<and> i < int (length b) then b ! nat i else 0),
      Reset = (\<lambda>b. [])\<rparr>"

definition NewExactBucket :: "unit \<Rightarrow> real list" where
  "NewExactBucket u = []"

subsection \<open>The scenario of the specification\<close>

text \<open>
  Boundaries \<open>[0, 10, 20]\<close>, exact-storage buckets, and ten calls of \<open>Add\<close> under
  the empty label set: five with the value 3, then five with the value 25.
  \<open>scenarioEngine\<close> is the engine these calls leave.
\<close>

definition scenarioCalls :: "(LabelSet option \<times> real) list" where
  "scenarioCalls =
     [(Some Map.empty, 3), (Some Map.empty, 3), (Some Map.empty, 3), (Some Map.empty, 3),
      (Some Map.empty, 3), (Some Map.empty, 25), (Some Map.empty, 25), (Some Map.empty, 25),
      (Some Map.empty, 25), (Some Map.empty, 25)]"

definition scenarioEngine :: "(LabelSet \<Rightarrow> string) \<Rightarrow> real list histogram" where
  "scenarioEngine LabelsToSignature =
     \<lparr>bucketMaker = NewExactBucket, bucketStarts = [0, 10, 20],
      values_map = [(LabelsToSignature Map.empty,
                     \<lparr>buckets = [[3, 3, 3, 3, 3], [], [25, 25, 25, 25, 25]], labels = Map.empty\<rparr>)],
      reportablePercentiles = [1 / 2, 1]\<rparr>"

text \<open>
  An engine whose one series holds no observation (a bucket strategy that evicts or
  decays may leave such a series).
\<close>

definition emptySeriesEngine :: "real list histogram" where
  "emptySeriesEngine =
     \<lparr>bucketMaker = NewExactBucket, bucketStarts = [0, 10, 20],
      values_map = [([], \<lparr>buckets = [[], [], []], labels = Map.empty\<rparr>)],
      reportablePercentiles = [1 / 2, 1]\<rparr>"

subsection \<open>Engines a program can hold\<close>

text \<open>
  The states an engine built by \<open>NewHistogram\<close> can be in: after any calls of \<open>Add\<close>
  (returning, or panicking with the panic recovered by the caller) and \<open>ResetAll\<close>.
\<close>

inductive reachable ::
  "(LabelSet \<Rightarrow> string) \<Rightarrow> 'b Bucket \<Rightarrow> 'b HistogramSpecification \<Rightarrow> 'b histogram \<Rightarrow> bool"
  for LabelsToSignature :: "LabelSet \<Rightarrow> string" and B :: "'b Bucket"
    and spec :: "'b HistogramSpecification" where
    reachable_new: "reachable LabelsToSignature B spec (NewHistogram spec)"
  | reachable_Add:
      "reachable LabelsToSignature B spec h
        \<Longrightarrow> Add LabelsToSignature B h labels0 v = Inr h1
        \<Longrightarrow> reachable LabelsToSignature B spec h1"
  | reachable_Add_panic:
      "reachable LabelsToSignature B spec h
        \<Longrightarrow> Add LabelsToSignature B h labels0 v = Inl (e, h1)
        \<Longrightarrow> reachable LabelsToSignature B spec h1"
  | reachable_ResetAll:
      "reachable LabelsToSignature B spec h
        \<Longrightarrow> reachable LabelsToSignature B spec (fst (ResetAll B h))"

subsection \<open>What a series was given\<close>

text \<open>
  For a sequence of calls of \<open>Add\<close>: the label set a call passes on (\<open>nil\<close> stands for
  the empty one), the values of the calls with a given signature, those of them the
  routing loop sends to bucket \<open>k\<close>, and the state of a bucket that was made by the
  factory and then given a list of values in order.
\<close>

definition labelsOrEmpty :: "LabelSet option \<Rightarrow> LabelSet" where
  "labelsOrEmpty labels0 = (case labels0 of None \<Rightarrow> Map.empty | Some l \<Rightarrow> l)"

definition valuesFor ::
  "(LabelSet \<Rightarrow> string) \<Rightarrow> string \<Rightarrow> (LabelSet option \<times> real) list \<Rightarrow> real list" where
  "valuesFor LabelsToSignature s calls =
     map snd (filter (\<lambda>c. LabelsToSignature (labelsOrEmpty (fst c)) = s) calls)"

definition routedTo :: "real list \<Rightarrow> nat \<Rightarrow> real list \<Rightarrow> real list" where
  "routedTo starts k vs = filter (\<lambda>v. routedIndex starts v = k) vs"

definition bucketAfter :: "'b Bucket \<Rightarrow> 'b \<Rightarrow> real list \<Rightarrow> 'b" where
  "bucketAfter B fresh vs = foldl (\<lambda>b v. Bucket_Add B v b) fresh vs"

text \<open>
  Modelled from the spec: the part of the \<open>Bucket\<close> contract that says what
  \<open>ValueForIndex\<close> answers, "an estimated value for the K-th order statistic it
  holds", for an index from 0 up to the count: the answer lies between two of the
  values the bucket was given.
\<close>

definition returnsHeldValues :: "'b Bucket \<Rightarrow> 'b \<Rightarrow> bool" where
  "returnsHeldValues B fresh =
     (\<forall>vs i. 0 \<le> i \<and> i < Observations B (bucketAfter B fresh vs) \<longrightarrow>
        (\<exists>u\<in>set vs. \<exists>w\<in>set vs.
           u \<le> ValueForIndex B (bucketAfter B fresh vs) i
           \<and> ValueForIndex B (bucketAfter B fresh vs) i \<le> w))"

subsection \<open>Counts before a bucket\<close>

text \<open>The number of observations the buckets before index \<open>k\<close> hold.\<close>

definition observedBefore :: "int list \<Rightarrow> nat \<Rightarrow> int" where
  "observedBefore os k = sum_list (take k os)"

declare nextNonEmptyBucketElement.simps [simp del]
declare bucketSearch.simps [simp del]
declare logarithmicLoop.simps [simp del]

section \<open>Boundary routing\<close>

lemma lastIndexLoop_takeWhile:
  "lastIndexLoop starts i lastIndex v =
     (if takeWhile (\<lambda>s. s \<le> v) starts = [] then lastIndex
      else i + length (takeWhile (\<lambda>s. s \<le> v) starts) - 1)"
  by (induction starts arbitrary: i lastIndex) (auto simp: not_less)

lemma routedIndex_takeWhile:
  "routedIndex starts v = length (takeWhile (\<lambda>s. s \<le> v) starts) - 1"
  by (simp add: routedIndex_def lastIndexLoop_takeWhile)

lemma takeWhile_le_sorted:
  assumes "sorted starts" "i < length starts" "starts ! i \<le> (v::real)"
  shows "i < length (takeWhile (\<lambda>s. s \<le> v) starts)"
proof (rule ccontr)
  let ?k = "length (takeWhile (\<lambda>s. s \<le> v) starts)"
  assume "\<not> i < ?k"
  then have ki: "?k \<le> i" by simp
  with assms(2) have "?k < length starts" by simp
  then have "\<not> starts ! ?k \<le> v" by (rule nth_length_takeWhile)
  moreover have "starts ! ?k \<le> starts ! i"
    using assms(1,2) ki by (simp add: sorted_iff_nth_mono)
  ultimately show False using assms(3) by simp
qed

lemma takeWhile_le_nth:
  assumes "i < length (takeWhile (\<lambda>s. s \<le> (v::real)) starts)"
  shows "starts ! i \<le> v"
proof -
  have "takeWhile (\<lambda>s. s \<le> v) starts ! i = starts ! i"
    using assms by (rule takeWhile_nth)
  moreover have "takeWhile (\<lambda>s. s \<le> v) starts ! i \<in> set (takeWhile (\<lambda>s. s \<le> v) starts)"
    using assms by simp
  ultimately show ?thesis by (auto dest: set_takeWhileD)
qed

text \<open>
  Claim C2. With a non-empty array of boundaries sorted in ascending order, the loop
  of \<open>Add\<close> picks the bucket whose half-open interval holds the value: the index
  is in range; a value below the first boundary goes to bucket 0; any other value
  \<open>v\<close> goes to the bucket \<open>r\<close> with \<open>starts ! r \<le> v\<close> and, unless \<open>r\<close> is the last,
  \<open>v < starts ! (r + 1)\<close>; a value equal to boundary \<open>i\<close> never goes below \<open>i\<close>
  and goes to bucket \<open>i\<close> itself when the boundaries are pairwise distinct (of
  equal boundaries, the last one takes the value: the intervals of the others are
  empty); a value strictly between boundaries \<open>i\<close> and \<open>i + 1\<close> goes to bucket
  \<open>i\<close>; a value at or above the last boundary goes to the last bucket.
\<close>

theorem routing_half_open:
  assumes srt: "sorted starts" and ne: "starts \<noteq> []"
  shows "routedIndex starts v < length starts
    \<and> (v < starts ! 0 \<longrightarrow> routedIndex starts v = 0)
    \<and> (starts ! 0 \<le> v \<longrightarrow>
          starts ! routedIndex starts v \<le> v
          \<and> (Suc (routedIndex starts v) < length starts \<longrightarrow> v < starts ! Suc (routedIndex starts v)))
    \<and> (\<forall>i. i < length starts \<and> v = starts ! i \<longrightarrow>
          i \<le> routedIndex starts v \<and> starts ! routedIndex starts v = v)
    \<and> (distinct starts \<longrightarrow> (\<forall>i. i < length starts \<and> v = starts ! i \<longrightarrow> routedIndex starts v = i))
    \<and> (\<forall>i. Suc i < length starts \<and> starts ! i < v \<and> v < starts ! Suc i \<longrightarrow> routedIndex starts v = i)
    \<and> (last starts \<le> v \<longrightarrow> routedIndex starts v = length starts - 1)"
proof -
  let ?k = "length (takeWhile (\<lambda>s. s \<le> v) starts)"
  let ?r = "routedIndex starts v"
  have r: "?r = ?k - 1" by (rule routedIndex_takeWhile)
  have kle: "?k \<le> length starts" by (rule length_takeWhile_le)
  have n0: "0 < length starts" using ne by simp
  have below: "\<And>i. i < ?k \<Longrightarrow> starts ! i \<le> v" by (rule takeWhile_le_nth)
  have above: "?k < length starts \<Longrightarrow> v < starts ! ?k"
    using nth_length_takeWhile[of "\<lambda>s. s \<le> v" starts] by simp
  have inside: "\<And>i. i < length starts \<Longrightarrow> starts ! i \<le> v \<Longrightarrow> i < ?k"
    using srt by (rule takeWhile_le_sorted)
  have c1: "?r < length starts" using r kle n0 by linarith
  have c2: "v < starts ! 0 \<longrightarrow> ?r = 0"
  proof
    assume "v < starts ! 0"
    then have "\<not> 0 < ?k" using below[of 0] by auto
    then show "?r = 0" using r by simp
  qed
  have c3: "starts ! 0 \<le> v \<longrightarrow>
      starts ! ?r \<le> v \<and> (Suc ?r < length starts \<longrightarrow> v < starts ! Suc ?r)"
  proof
    assume "starts ! 0 \<le> v"
    then have k: "0 < ?k" using inside[of 0] n0 by simp
    then have "starts ! ?r \<le> v" using below[of ?r] r by simp
    moreover have "Suc ?r = ?k" using k r by simp
    ultimately show "starts ! ?r \<le> v \<and> (Suc ?r < length starts \<longrightarrow> v < starts ! Suc ?r)"
      using above by simp
  qed
  have c4: "\<forall>i. i < length starts \<and> v = starts ! i \<longrightarrow> i \<le> ?r \<and> starts ! ?r = v"
  proof (intro allI impI)
    fix i assume a: "i < length starts \<and> v = starts ! i"
    then have ik: "i < ?k" using inside[of i] by simp
    then have le: "i \<le> ?r" using r by simp
    have "starts ! ?r \<le> v" using below[of ?r] ik r by simp
    moreover have "starts ! i \<le> starts ! ?r"
      using srt le c1 by (simp add: sorted_iff_nth_mono)
    ultimately show "i \<le> ?r \<and> starts ! ?r = v" using le a by simp
  qed
  have c5: "distinct starts \<longrightarrow> (\<forall>i. i < length starts \<and> v = starts ! i \<longrightarrow> ?r = i)"
  proof (intro allI impI)
    fix i assume d: "distinct starts" and a: "i < length starts \<and> v = starts ! i"
    from c4 a have "starts ! ?r = starts ! i" by simp
    then show "?r = i" using d c1 a by (simp add: nth_eq_iff_index_eq)
  qed
  have c6: "\<forall>i. Suc i < length starts \<and> starts ! i < v \<and> v < starts ! Suc i \<longrightarrow> ?r = i"
  proof (intro allI impI)
    fix i assume a: "Suc i < length starts \<and> starts ! i < v \<and> v < starts ! Suc i"
    then have "i < ?k" using inside[of i] by simp
    moreover have "\<not> Suc i < ?k" using below[of "Suc i"] a by auto
    ultimately show "?r = i" using r by simp
  qed
  have c7: "last starts \<le> v \<longrightarrow> ?r = length starts - 1"
  proof
    assume "last starts \<le> v"
    then have "starts ! (length starts - 1) \<le> v" using ne by (simp add: last_conv_nth)
    then have "length starts - 1 < ?k" using inside[of "length starts - 1"] n0 by simp
    then show "?r = length starts - 1" using r kle by simp
  qed
  show ?thesis using c1 c2 c3 c4 c5 c6 c7 by blast
qed

theorem routing_half_open_witness:
  "sorted [0, 10, 20 :: real] \<and> [0, 10, 20 :: real] \<noteq> [] \<and> distinct [0, 10, 20 :: real]
   \<and> routedIndex [0, 10, 20] (-5) = 0
   \<and> routedIndex [0, 10, 20] 10 = 1
   \<and> routedIndex [0, 10, 20] 15 = 1
   \<and> routedIndex [0, 10, 20] 25 = 2"
  using routing_half_open[of "[0, 10, 20]" "-5"] routing_half_open[of "[0, 10, 20]" 10]
    routing_half_open[of "[0, 10, 20]" 15] routing_half_open[of "[0, 10, 20]" 25]
  by (simp add: routedIndex_def)

section \<open>The two loops of the percentile search\<close>

lemma tallyLoop_Inr:
  assumes "i + length bs \<le> length obs" "length cum = length obs"
  shows "\<exists>obs' cum'. tallyLoop B bs i obs cum tot
            = Inr (obs', cum', tot + sum_list (map (Observations B) bs))
     \<and> length obs' = length obs \<and> length cum' = length obs
     \<and> (\<forall>k<length obs. obs' ! k =
           (if i \<le> k \<and> k < i + length bs then Observations B (bs ! (k - i)) else obs ! k))
     \<and> (\<forall>k<length obs. cum' ! k =
           (if i \<le> k \<and> k < i + length bs
            then tot + sum_list (map (Observations B) (take (Suc (k - i)) bs)) else cum ! k))"
  using assms
proof (induction bs arbitrary: i obs cum tot)
  case Nil
  then show ?case by simp
next
  case (Cons b rest)
  let ?o = "Observations B b"
  have i: "i < length obs" "i < length cum" using Cons.prems by simp_all
  have "Suc i + length rest \<le> length (obs[i := ?o])" "length (cum[i := tot + ?o]) = length (obs[i := ?o])"
    using Cons.prems by simp_all
  from Cons.IH[OF this, of "tot + ?o"] obtain obs' cum' where
    run: "tallyLoop B rest (Suc i) (obs[i := ?o]) (cum[i := tot + ?o]) (tot + ?o)
            = Inr (obs', cum', tot + ?o + sum_list (map (Observations B) rest))"
    and len: "length obs' = length obs" "length cum' = length obs"
    and ob: "\<forall>k<length obs. obs' ! k =
           (if Suc i \<le> k \<and> k < Suc i + length rest then Observations B (rest ! (k - Suc i))
            else obs[i := ?o] ! k)"
    and cu: "\<forall>k<length obs. cum' ! k =
           (if Suc i \<le> k \<and> k < Suc i + length rest
            then tot + ?o + sum_list (map (Observations B) (take (Suc (k - Suc i)) rest))
            else cum[i := tot + ?o] ! k)"
    by auto
  have eq: "tallyLoop B (b # rest) i obs cum tot
      = Inr (obs', cum', tot + sum_list (map (Observations B) (b # rest)))"
    using run i by (simp add: add.assoc)
  have ob': "\<forall>k<length obs. obs' ! k =
           (if i \<le> k \<and> k < i + length (b # rest) then Observations B ((b # rest) ! (k - i)) else obs ! k)"
  proof (intro allI impI)
    fix k assume k: "k < length obs"
    show "obs' ! k = (if i \<le> k \<and> k < i + length (b # rest)
        then Observations B ((b # rest) ! (k - i)) else obs ! k)"
    proof (cases "k = i")
      case True
      then show ?thesis using ob k by simp
    next
      case False
      then show ?thesis using ob k by (auto simp: nth_Cons')
    qed
  qed
  have cu': "\<forall>k<length obs. cum' ! k =
           (if i \<le> k \<and> k < i + length (b # rest)
            then tot + sum_list (map (Observations B) (take (Suc (k - i)) (b # rest))) else cum ! k)"
  proof (intro allI impI)
    fix k assume k: "k < length obs"
    show "cum' ! k = (if i \<le> k \<and> k < i + length (b # rest)
            then tot + sum_list (map (Observations B) (take (Suc (k - i)) (b # rest))) else cum ! k)"
    proof (cases "k = i")
      case True
      then show ?thesis using cu k Cons.prems by simp
    next
      case False
      show ?thesis
      proof (cases "i < k")
        case True
        then have "k - i = Suc (k - Suc i)" by simp
        then show ?thesis using cu k True Cons.prems by (simp add: add.assoc)
      next
        case F2: False
        then show ?thesis using cu k False Cons.prems by simp
      qed
    qed
  qed
  show ?case using eq len ob' cu' by blast
qed

lemma tallyLoop_full:
  assumes "length bs = n"
  shows "\<exists>cum. tallyLoop B bs 0 (replicate n 0) (replicate n 0) 0
            = Inr (map (Observations B) bs, cum, sum_list (map (Observations B) bs))
     \<and> length cum = n
     \<and> (\<forall>k<n. cum ! k = sum_list (take (Suc k) (map (Observations B) bs)))"
proof -
  have "0 + length bs \<le> length (replicate n (0::int))"
       "length (replicate n (0::int)) = length (replicate n (0::int))"
    using assms by simp_all
  from tallyLoop_Inr[OF this, of B 0] obtain obs' cum' where
    run: "tallyLoop B bs 0 (replicate n 0) (replicate n 0) 0
            = Inr (obs', cum', sum_list (map (Observations B) bs))"
    and len: "length obs' = n" "length cum' = n"
    and ob: "\<forall>k<n. obs' ! k = Observations B (bs ! k)"
    and cu: "\<forall>k<n. cum' ! k = sum_list (map (Observations B) (take (Suc k) bs))"
    using assms by auto
  have "obs' = map (Observations B) bs"
    using len ob assms by (intro nth_equalityI) simp_all
  then show ?thesis using run len cu by (auto simp: take_map)
qed

lemma observedBefore_0: "observedBefore os 0 = 0"
  by (simp add: observedBefore_def)

lemma observedBefore_Suc:
  "k < length os \<Longrightarrow> observedBefore os (Suc k) = observedBefore os k + os ! k"
  by (simp add: observedBefore_def take_Suc_conv_app_nth)

lemma observedBefore_all: "length os \<le> k \<Longrightarrow> observedBefore os k = sum_list os"
  by (simp add: observedBefore_def)

lemma observedBefore_mono:
  assumes "\<forall>x\<in>set os. 0 \<le> x" "j \<le> k" "k \<le> length os"
  shows "observedBefore os j \<le> observedBefore os k"
  using assms(2,3)
proof (induction k)
  case 0
  then show ?case by simp
next
  case (Suc k)
  show ?case
  proof (cases "j = Suc k")
    case True
    then show ?thesis by simp
  next
    case False
    then have "observedBefore os j \<le> observedBefore os k" using Suc by simp
    moreover have "0 \<le> os ! k" using assms(1) Suc.prems by simp
    ultimately show ?thesis using Suc.prems by (simp add: observedBefore_Suc)
  qed
qed

lemma observedBefore_nonneg:
  "\<forall>x\<in>set os. 0 \<le> x \<Longrightarrow> k \<le> length os \<Longrightarrow> 0 \<le> observedBefore os k"
  using observedBefore_mono[of os 0 k] by (simp add: observedBefore_0)

lemma previousCumulativeObservations_eq:
  assumes "\<forall>k<length os. cum ! k = observedBefore os (Suc k)" "i \<le> length os"
  shows "previousCumulativeObservations cum i = observedBefore os i"
proof (cases i)
  case 0
  then show ?thesis by (simp add: previousCumulativeObservations_def observedBefore_0)
next
  case (Suc j)
  then show ?thesis using assms by (simp add: previousCumulativeObservations_def)
qed

lemma nextNonEmptyBucketElement_finds:
  assumes "map_of (values_map h) signature = Some hv" "length (buckets hv) = n"
    "length os = n" "\<forall>x\<in>set os. 0 \<le> x"
    "i \<le> n" "observedBefore os i < observedBefore os n"
  shows "\<exists>j. nextNonEmptyBucketElement h signature i n os = Inr (j, 0)
           \<and> i \<le> j \<and> j < n \<and> observedBefore os j = observedBefore os i \<and> 0 < os ! j"
  using assms(5,6)
proof (induction "n - i" arbitrary: i)
  case 0
  then show ?case by simp
next
  case (Suc d)
  then have i: "i < n" by simp
  show ?case
  proof (cases "os ! i = 0")
    case True
    have "d = n - Suc i" "Suc i \<le> n" using Suc.hyps(2) i by simp_all
    moreover have "observedBefore os (Suc i) = observedBefore os i"
      using True i assms(3) by (simp add: observedBefore_Suc)
    ultimately obtain j where
      "nextNonEmptyBucketElement h signature (Suc i) n os = Inr (j, 0)"
      "Suc i \<le> j" "j < n" "observedBefore os j = observedBefore os i" "0 < os ! j"
      using Suc.hyps(1)[of "Suc i"] Suc.prems(2) by auto
    then show ?thesis
      using True i assms(3)
      by (subst nextNonEmptyBucketElement.simps) auto
  next
    case False
    moreover have "0 \<le> os ! i" using assms(3,4) i by simp
    ultimately have "0 < os ! i" by simp
    then show ?thesis
      using i assms(1,2,3)
      by (subst nextNonEmptyBucketElement.simps) auto
  qed
qed

lemma bucketSearch_locates:
  assumes "map_of (values_map h) signature = Some hv" "length (buckets hv) = n"
    "length os = n" "length cum = n" "\<forall>x\<in>set os. 0 \<le> x"
    "\<forall>k<n. cum ! k = observedBefore os (Suc k)"
    "0 \<le> idx" "idx < observedBefore os n"
    "i \<le> n" "observedBefore os i = 0 \<or> observedBefore os i < idx"
  shows "\<exists>b. bucketSearch h signature hv n os cum idx i = Some (Inr (b, idx - observedBefore os b))
           \<and> b < n \<and> observedBefore os b \<le> idx \<and> idx < observedBefore os (Suc b)"
  using assms(9,10)
proof (induction "n - i" arbitrary: i)
  case 0
  then have "i = n" by simp
  then show ?case using 0 assms(7,8) by auto
next
  case (Suc d)
  then have i: "i < n" by simp
  have d: "d = n - Suc i" "Suc i \<le> n" using Suc.hyps(2) i by simp_all
  have ci: "cum ! i = observedBefore os (Suc i)" using assms(6) i by simp
  have step: "observedBefore os (Suc i) = observedBefore os i + os ! i"
    using i assms(3) by (simp add: observedBefore_Suc)
  have prev: "previousCumulativeObservations cum i = observedBefore os i"
    using assms(3,6) i by (intro previousCumulativeObservations_eq) simp_all
  have lo: "observedBefore os i \<le> idx" using Suc.prems(2) assms(7) by auto
  consider (skip) "cum ! i = 0" | (hit) "cum ! i \<noteq> 0" "idx \<le> cum ! i" | (pass) "cum ! i \<noteq> 0" "cum ! i < idx"
    by linarith
  then show ?case
  proof cases
    case skip
    then obtain b where
      "bucketSearch h signature hv n os cum idx (Suc i) = Some (Inr (b, idx - observedBefore os b))"
      "b < n" "observedBefore os b \<le> idx" "idx < observedBefore os (Suc b)"
      using Suc.hyps(1)[of "Suc i"] d ci by auto
    then show ?thesis
      using skip i assms(4) by (subst bucketSearch.simps) auto
  next
    case pass
    then obtain b where
      "bucketSearch h signature hv n os cum idx (Suc i) = Some (Inr (b, idx - observedBefore os b))"
      "b < n" "observedBefore os b \<le> idx" "idx < observedBefore os (Suc b)"
      using Suc.hyps(1)[of "Suc i"] d ci by auto
    then show ?thesis
      using pass i assms(4) by (subst bucketSearch.simps) auto
  next
    case hit
    show ?thesis
    proof (cases "os ! i = idx - observedBefore os i")
      case True
      then have full: "observedBefore os (Suc i) = idx" using step by simp
      then have "observedBefore os (Suc i) < observedBefore os n" using assms(8) by simp
      from nextNonEmptyBucketElement_finds[OF assms(1,2,3,5) d(2) this] obtain j where
        j: "nextNonEmptyBucketElement h signature (Suc i) n os = Inr (j, 0)"
        "Suc i \<le> j" "j < n" "observedBefore os j = observedBefore os (Suc i)" "0 < os ! j"
        by auto
      have "observedBefore os (Suc j) = observedBefore os j + os ! j"
        using j(3) assms(3) by (simp add: observedBefore_Suc)
      then have "idx < observedBefore os (Suc j)" "idx - observedBefore os j = 0"
        using j(4,5) full by simp_all
      moreover have "bucketSearch h signature hv n os cum idx i = Some (Inr (j, 0))"
        using hit i assms(3,4) True prev j(1) by (subst bucketSearch.simps) simp
      ultimately show ?thesis using j(3,4) full by auto
    next
      case False
      have "idx < observedBefore os (Suc i)" using hit ci step False by simp
      moreover have "bucketSearch h signature hv n os cum idx i
          = Some (Inr (i, idx - observedBefore os i))"
        using hit i assms(2,3,4) False prev by (subst bucketSearch.simps) simp
      ultimately show ?thesis using i lo by auto
    qed
  qed
qed

lemma bucketSearch_all_zero:
  assumes "\<forall>k<length cum. i \<le> k \<longrightarrow> cum ! k = 0"
  shows "bucketSearch h signature hv n os cum idx i = None"
  using assms
proof (induction "length cum - i" arbitrary: i)
  case 0
  then show ?case by (subst bucketSearch.simps) simp
next
  case (Suc d)
  then have "bucketSearch h signature hv n os cum idx (Suc i) = None" by simp
  then show ?case using Suc.prems Suc.hyps(2) by (subst bucketSearch.simps) simp
qed

lemma int_of_float64_bounds:
  assumes "0 \<le> x" "x \<le> real_of_int m"
  shows "0 \<le> int_of_float64 x \<and> int_of_float64 x \<le> m"
  using assms by (simp add: int_of_float64_def floor_le_iff le_floor_iff)

lemma prospectiveIndex_bounds:
  assumes "0 \<le> p" "p \<le> 1" "1 \<le> t"
  shows "0 \<le> prospectiveIndexForPercentile p t \<and> prospectiveIndexForPercentile p t \<le> t - 1"
proof -
  have "0 \<le> p * real_of_int (t - 1)" using assms by simp
  moreover have "p * real_of_int (t - 1) \<le> 1 * real_of_int (t - 1)"
    using assms by (intro mult_right_mono) simp_all
  ultimately show ?thesis
    unfolding prospectiveIndexForPercentile_def
    using int_of_float64_bounds[of "p * real_of_int (t - 1)" "t - 1"] by simp
qed

lemma prospectiveIndex_mono:
  assumes "p1 \<le> p2" "1 \<le> t"
  shows "prospectiveIndexForPercentile p1 t \<le> prospectiveIndexForPercentile p2 t"
proof -
  have "p1 * real_of_int (t - 1) \<le> p2 * real_of_int (t - 1)"
    using assms by (intro mult_right_mono) simp_all
  moreover have "x \<le> y \<Longrightarrow> int_of_float64 x \<le> int_of_float64 y" for x y :: real
    unfolding int_of_float64_def
    by (auto intro: floor_mono ceiling_mono order_trans[OF ceiling_mono] simp: not_le)
       (meson ceiling_le_zero floor_le_ceiling le_floor_iff less_eq_real_def of_int_0 order_trans zero_le_floor)
  ultimately show ?thesis unfolding prospectiveIndexForPercentile_def by blast
qed

lemma bucketForPercentileLoops_locates:
  assumes series: "map_of (values_map h) signature = Some hv"
    and len: "length (buckets hv) = length (bucketStarts h)"
    and nonneg: "\<forall>b\<in>set (buckets hv). 0 \<le> Observations B b"
    and pos: "0 < seriesTotal B hv"
    and p: "0 \<le> p" "p \<le> 1"
  shows "\<exists>b. bucketForPercentileLoops B h signature p
        = Inr (Some (Inr (b, prospectiveIndexForPercentile p (seriesTotal B hv)
                              - observedBefore (map (Observations B) (buckets hv)) b)))
      \<and> b < length (buckets hv)
      \<and> observedBefore (map (Observations B) (buckets hv)) b
           \<le> prospectiveIndexForPercentile p (seriesTotal B hv)
      \<and> prospectiveIndexForPercentile p (seriesTotal B hv)
           < observedBefore (map (Observations B) (buckets hv)) (Suc b)"
proof -
  let ?n = "length (bucketStarts h)"
  let ?os = "map (Observations B) (buckets hv)"
  let ?idx = "prospectiveIndexForPercentile p (seriesTotal B hv)"
  from tallyLoop_full[OF len, of B] obtain cum where
    tally: "tallyLoop B (buckets hv) 0 (replicate ?n 0) (replicate ?n 0) 0
              = Inr (?os, cum, sum_list ?os)"
    and lc: "length cum = ?n"
    and cu: "\<forall>k<?n. cum ! k = sum_list (take (Suc k) ?os)"
    by blast
  have tot: "sum_list ?os = seriesTotal B hv" by (simp add: seriesTotal_def)
  have all: "observedBefore ?os ?n = seriesTotal B hv"
    using len by (simp add: observedBefore_all seriesTotal_def)
  have idx: "0 \<le> ?idx" "?idx < observedBefore ?os ?n"
    using prospectiveIndex_bounds[OF p, of "seriesTotal B hv"] pos all by simp_all
  have nn: "\<forall>x\<in>set ?os. 0 \<le> x" using nonneg by simp
  have cu': "\<forall>k<?n. cum ! k = observedBefore ?os (Suc k)"
    using cu by (simp add: observedBefore_def)
  have "observedBefore ?os 0 = 0 \<or> observedBefore ?os 0 < ?idx"
    by (simp add: observedBefore_0)
  from bucketSearch_locates[OF series len _ lc nn cu' idx _ this]
  obtain b where
    "bucketSearch h signature hv ?n ?os cum ?idx 0 = Some (Inr (b, ?idx - observedBefore ?os b))"
    "b < ?n" "observedBefore ?os b \<le> ?idx" "?idx < observedBefore ?os (Suc b)"
    using len by auto
  then show ?thesis
    using series tally tot len by (auto simp: bucketForPercentileLoops_def)
qed

section \<open>The scenario, evaluated\<close>

lemma ExactBucket_simps:
  "Bucket_Add ExactBucket v b = b @ [v]"
  "Observations ExactBucket b = int (length b)"
  "ValueForIndex ExactBucket b i = (if 0 \<le> i \<and> i < int (length b) then b ! nat i else 0)"
  "Reset ExactBucket b = []"
  by (simp_all add: ExactBucket_def)

lemma scenario_routes: "routedIndex [0, 10, 20] 3 = 0" "routedIndex [0, 10, 20] 25 = 2"
  by (simp_all add: routedIndex_def)

lemma scenario_AddAll:
  "AddAll S ExactBucket
     (NewHistogram \<lparr>BucketBuilder = NewExactBucket, ReportablePercentiles = [1 / 2, 1],
                    Starts = [0, 10, 20]\<rparr>) scenarioCalls
   = Inr (scenarioEngine S)"
  by (simp add: scenarioCalls_def scenarioEngine_def NewHistogram_def Add_def Let_def
      scenario_routes ExactBucket_simps NewExactBucket_def)

lemma scenario_series:
  "map_of (values_map (scenarioEngine S)) (S Map.empty)
     = Some \<lparr>buckets = [[3, 3, 3, 3, 3], [], [25, 25, 25, 25, 25]], labels = Map.empty\<rparr>"
  by (simp add: scenarioEngine_def)

lemma scenario_starts: "bucketStarts (scenarioEngine S) = [0, 10, 20]"
  by (simp add: scenarioEngine_def)

lemma scenario_total:
  "seriesTotal ExactBucket
     \<lparr>buckets = [[3, 3, 3, 3, 3], [], [25, 25, 25, 25, 25]], labels = Map.empty\<rparr> = 10"
  by (simp add: seriesTotal_def ExactBucket_simps)

lemma scenario_index_half: "prospectiveIndexForPercentile (1 / 2) 10 = 4"
  by (simp add: prospectiveIndexForPercentile_def int_of_float64_def)

lemma scenario_index_one: "prospectiveIndexForPercentile 1 10 = 9"
  by (simp add: prospectiveIndexForPercentile_def int_of_float64_def)

lemma scenario_search_half:
  "length (buckets hv) = 3
    \<Longrightarrow> bucketSearch h s hv n [5, 0, 5] [5, 5, 10] 4 0 = Some (Inr (0, 4))"
  by (simp add: bucketSearch.simps[where i = 0] previousCumulativeObservations_def)

lemma scenario_search_one:
  "length (buckets hv) = 3
    \<Longrightarrow> bucketSearch h s hv n [5, 0, 5] [5, 5, 10] 9 0 = Some (Inr (2, 4))"
  by (simp add: bucketSearch.simps[where i = 0] bucketSearch.simps[where i = "Suc 0"]
      bucketSearch.simps[where i = "Suc (Suc 0)"] previousCumulativeObservations_def)

lemma scenario_bucket_half:
  "bucketForPercentile ExactBucket (scenarioEngine S) (S Map.empty) (1 / 2) = Inr (0, 4)"
  by (simp add: bucketForPercentile_def bucketForPercentileLoops_def scenario_series
      scenario_starts ExactBucket_simps scenario_index_half scenario_search_half)

lemma scenario_bucket_one:
  "bucketForPercentile ExactBucket (scenarioEngine S) (S Map.empty) 1 = Inr (2, 4)"
  by (simp add: bucketForPercentile_def bucketForPercentileLoops_def scenario_series
      scenario_starts ExactBucket_simps scenario_index_one scenario_search_one)

lemma scenario_percentile:
  "percentile ExactBucket (scenarioEngine S) (S Map.empty) (1 / 2) = Inr 3"
  "percentile ExactBucket (scenarioEngine S) (S Map.empty) 1 = Inr 25"
  by (simp_all add: percentile_def scenario_bucket_half scenario_bucket_one scenario_series
      ExactBucket_simps)

text \<open>
  Claim C1. In the scenario (boundaries \<open>[0, 10, 20]\<close>, one series under the empty
  label set, exact-storage buckets, five observations of 3 and five of 25) the
  buckets count 5, 0 and 5 observations; the prospective index of the percentile 0.5
  is 4, bucket 0 is selected at sub-index 4 and the estimate is 3; the prospective
  index of the percentile 1.0 is 9, bucket 2 is selected at sub-index 4 and the
  estimate is 25.
\<close>

theorem percentile_scenario:
  "AddAll S ExactBucket
     (NewHistogram \<lparr>BucketBuilder = NewExactBucket, ReportablePercentiles = [1 / 2, 1],
                    Starts = [0, 10, 20]\<rparr>) scenarioCalls
     = Inr (scenarioEngine S)
   \<and> map (Observations ExactBucket) [[3, 3, 3, 3, 3], [], [25, 25, 25, 25, 25]] = [5, 0, 5]
   \<and> prospectiveIndexForPercentile (1 / 2) 10 = 4
   \<and> bucketForPercentile ExactBucket (scenarioEngine S) (S Map.empty) (1 / 2) = Inr (0, 4)
   \<and> percentile ExactBucket (scenarioEngine S) (S Map.empty) (1 / 2) = Inr 3
   \<and> prospectiveIndexForPercentile 1 10 = 9
   \<and> bucketForPercentile ExactBucket (scenarioEngine S) (S Map.empty) 1 = Inr (2, 4)
   \<and> percentile ExactBucket (scenarioEngine S) (S Map.empty) 1 = Inr 25"
  by (simp add: scenario_AddAll scenario_index_half scenario_index_one scenario_bucket_half
      scenario_bucket_one scenario_percentile ExactBucket_simps)

section \<open>Percentile queries\<close>

text \<open>
  Claim C4. For a series whose bucket array is as long as the boundary array, whose
  buckets report counts that are not negative and whose total count is positive, and
  for a percentile in \<open>(0, 1]\<close>, \<open>bucketForPercentile\<close> returns a bucket and a
  sub-index (so it raises no panic, the one of \<open>nextNonEmptyBucketElement\<close>
  included), and the sub-index is at least 0 and below the count of that bucket;
  \<open>percentile\<close> is that bucket's \<open>ValueForIndex\<close> at the sub-index.
\<close>

theorem bucketForPercentile_in_range:
  assumes series: "map_of (values_map h) signature = Some hv"
    and len: "length (buckets hv) = length (bucketStarts h)"
    and nonneg: "\<forall>b\<in>set (buckets hv). 0 \<le> Observations B b"
    and pos: "0 < seriesTotal B hv"
    and p: "0 < p" "p \<le> 1"
  shows "\<exists>i subIndex. bucketForPercentile B h signature p = Inr (i, subIndex)
            \<and> i < length (buckets hv)
            \<and> 0 \<le> subIndex \<and> subIndex < Observations B (buckets hv ! i)
            \<and> percentile B h signature p = Inr (ValueForIndex B (buckets hv ! i) subIndex)"
proof -
  let ?os = "map (Observations B) (buckets hv)"
  let ?idx = "prospectiveIndexForPercentile p (seriesTotal B hv)"
  have "0 \<le> p" using p by simp
  from bucketForPercentileLoops_locates[OF series len nonneg pos this p(2)]
  obtain b where b:
    "bucketForPercentileLoops B h signature p = Inr (Some (Inr (b, ?idx - observedBefore ?os b)))"
    "b < length (buckets hv)" "observedBefore ?os b \<le> ?idx" "?idx < observedBefore ?os (Suc b)"
    by blast
  have "observedBefore ?os (Suc b) = observedBefore ?os b + Observations B (buckets hv ! b)"
    using b(2) by (simp add: observedBefore_Suc)
  then have "0 \<le> ?idx - observedBefore ?os b"
    "?idx - observedBefore ?os b < Observations B (buckets hv ! b)"
    using b(3,4) by simp_all
  moreover have "bucketForPercentile B h signature p = Inr (b, ?idx - observedBefore ?os b)"
    using b(1) by (simp add: bucketForPercentile_def)
  ultimately show ?thesis using b(2) series by (auto simp: percentile_def)
qed

theorem bucketForPercentile_in_range_witness:
  "map_of (values_map (scenarioEngine (\<lambda>l. []))) []
     = Some \<lparr>buckets = [[3, 3, 3, 3, 3], [], [25, 25, 25, 25, 25]], labels = Map.empty\<rparr>
   \<and> 0 < seriesTotal ExactBucket
        \<lparr>buckets = [[3, 3, 3, 3, 3], [], [25, 25, 25, 25, 25]], labels = Map.empty\<rparr>
   \<and> (\<exists>i subIndex.
        bucketForPercentile ExactBucket (scenarioEngine (\<lambda>l. [])) [] (1 / 2) = Inr (i, subIndex)
        \<and> i < 3 \<and> 0 \<le> subIndex
        \<and> subIndex < Observations ExactBucket ([[3, 3, 3, 3, 3], [], [25, 25, 25, 25, 25]] ! i))"
  using bucketForPercentile_in_range[of "scenarioEngine (\<lambda>l. [])" "[]"
      "\<lparr>buckets = [[3, 3, 3, 3, 3], [], [25, 25, 25, 25, 25]], labels = Map.empty\<rparr>"
      ExactBucket "1 / 2"]
    scenario_series[of "\<lambda>l. []"]
  by (auto simp add: scenario_starts scenario_total ExactBucket_simps numeral_3_eq_3)

lemma observedBefore_zero:
  assumes "\<forall>x\<in>set os. 0 \<le> x" "sum_list os = 0" "k \<le> length os"
  shows "observedBefore os k = 0"
proof -
  have "observedBefore os k \<le> observedBefore os (length os)"
    using assms(1,3) by (intro observedBefore_mono) simp_all
  moreover have "0 \<le> observedBefore os k" using assms(1,3) by (rule observedBefore_nonneg)
  ultimately show ?thesis using assms(2) by (simp add: observedBefore_all)
qed

lemma bucketForPercentileLoops_empty:
  assumes series: "map_of (values_map h) signature = Some hv"
    and len: "length (buckets hv) = length (bucketStarts h)"
    and nonneg: "\<forall>b\<in>set (buckets hv). 0 \<le> Observations B b"
    and z: "seriesTotal B hv = 0"
  shows "bucketForPercentileLoops B h signature p = Inr None"
proof -
  let ?n = "length (bucketStarts h)"
  let ?os = "map (Observations B) (buckets hv)"
  have nn: "\<forall>x\<in>set ?os. 0 \<le> x" using nonneg by simp
  from tallyLoop_full[OF len, of B] obtain cum where
    tally: "tallyLoop B (buckets hv) 0 (replicate ?n 0) (replicate ?n 0) 0
              = Inr (?os, cum, sum_list ?os)"
    and lc: "length cum = ?n"
    and cu: "\<forall>k<?n. cum ! k = sum_list (take (Suc k) ?os)"
    by blast
  have "\<forall>k<length cum. 0 \<le> k \<longrightarrow> cum ! k = 0"
  proof (intro allI impI)
    fix k assume k: "k < length cum"
    then have "cum ! k = observedBefore ?os (Suc k)"
      using cu lc by (simp add: observedBefore_def)
    also have "\<dots> = 0"
      using nn z k lc len by (intro observedBefore_zero) (simp_all add: seriesTotal_def)
    finally show "cum ! k = 0" .
  qed
  then have "bucketSearch h signature hv ?n ?os cum
      (prospectiveIndexForPercentile p (sum_list ?os)) 0 = None"
    by (rule bucketSearch_all_zero)
  then show ?thesis using series tally by (simp add: bucketForPercentileLoops_def)
qed

text \<open>
  Claim C5. For a series as in C4 but of any total, and a percentile in \<open>(0, 1]\<close>,
  the second loop of \<open>bucketForPercentile\<close> ends without returning exactly when the
  total count of the series is zero; then, the engine having at least one boundary,
  \<open>bucketForPercentile\<close> returns bucket 0 and index 0, and \<open>percentile\<close> returns
  what bucket 0 answers for index 0, without a panic.
\<close>

theorem fall_through_iff_empty:
  assumes series: "map_of (values_map h) signature = Some hv"
    and len: "length (buckets hv) = length (bucketStarts h)"
    and nonneg: "\<forall>b\<in>set (buckets hv). 0 \<le> Observations B b"
    and p: "0 < p" "p \<le> 1"
  shows "(bucketForPercentileLoops B h signature p = Inr None \<longleftrightarrow> seriesTotal B hv = 0)
    \<and> (seriesTotal B hv = 0 \<and> bucketStarts h \<noteq> [] \<longrightarrow>
          bucketForPercentile B h signature p = Inr (0, 0)
          \<and> percentile B h signature p = Inr (ValueForIndex B (buckets hv ! 0) 0))"
proof -
  let ?n = "length (bucketStarts h)"
  let ?os = "map (Observations B) (buckets hv)"
  have nn: "\<forall>x\<in>set ?os. 0 \<le> x" using nonneg by simp
  have tot_nonneg: "0 \<le> seriesTotal B hv"
    using observedBefore_nonneg[OF nn, of "length ?os"]
    by (simp add: observedBefore_all seriesTotal_def)
  have empty: "bucketForPercentileLoops B h signature p = Inr None" if z: "seriesTotal B hv = 0"
    using series len nonneg z by (rule bucketForPercentileLoops_empty)
  have full: "bucketForPercentileLoops B h signature p \<noteq> Inr None" if "seriesTotal B hv \<noteq> 0"
  proof -
    have "0 < seriesTotal B hv" using that tot_nonneg by simp
    moreover have "0 \<le> p" using p by simp
    ultimately show ?thesis
      using bucketForPercentileLoops_locates[OF series len nonneg _ _ p(2)] by auto
  qed
  have "bucketForPercentile B h signature p = Inr (0, 0)
      \<and> percentile B h signature p = Inr (ValueForIndex B (buckets hv ! 0) 0)"
    if "seriesTotal B hv = 0" "bucketStarts h \<noteq> []"
    using empty[OF that(1)] that(2) series len
    by (simp add: bucketForPercentile_def percentile_def)
  then show ?thesis using empty full by blast
qed

theorem fall_through_iff_empty_witness:
  "seriesTotal ExactBucket \<lparr>buckets = [[], [], []], labels = Map.empty\<rparr> = 0
   \<and> bucketStarts emptySeriesEngine \<noteq> []
   \<and> bucketForPercentileLoops ExactBucket emptySeriesEngine [] (1 / 2) = Inr None
   \<and> bucketForPercentile ExactBucket emptySeriesEngine [] (1 / 2) = Inr (0, 0)
   \<and> percentile ExactBucket emptySeriesEngine [] (1 / 2) = Inr 0"
  using fall_through_iff_empty[of emptySeriesEngine "[]"
      "\<lparr>buckets = [[], [], []], labels = Map.empty\<rparr>" ExactBucket "1 / 2"]
  by (simp add: emptySeriesEngine_def seriesTotal_def ExactBucket_simps)

section \<open>The logarithmic boundary generator\<close>

lemma logarithmicLoop_spec:
  assumes "i \<le> n" "length bs = n"
  shows "length (logarithmicLoop i j n bs) = n
    \<and> (\<forall>k<n. logarithmicLoop i j n bs ! k = (if k < i then bs ! k else if k = i then j else 2 ^ k))"
  using assms
proof (induction "n - i" arbitrary: i j bs)
  case 0
  then have "i = n" by simp
  then show ?case using 0 by (subst (1 2) logarithmicLoop.simps) simp
next
  case (Suc d)
  then have i: "i < n" by simp
  have "d = n - Suc i" "Suc i \<le> n" "length (bs[i := j]) = n"
    using Suc.hyps(2) Suc.prems i by simp_all
  from Suc.hyps(1)[OF this, of "2 ^ Suc i"]
  have IH: "length (logarithmicLoop (Suc i) (2 ^ Suc i) n (bs[i := j])) = n"
    "\<forall>k<n. logarithmicLoop (Suc i) (2 ^ Suc i) n (bs[i := j]) ! k =
        (if k < Suc i then bs[i := j] ! k else if k = Suc i then 2 ^ Suc i else 2 ^ k)"
    by simp_all
  have unf: "logarithmicLoop i j n bs = logarithmicLoop (Suc i) (2 ^ Suc i) n (bs[i := j])"
    using i by (subst logarithmicLoop.simps) simp
  show ?case
  proof (intro conjI allI impI)
    show "length (logarithmicLoop i j n bs) = n" using IH(1) unf by simp
  next
    fix k assume k: "k < n"
    show "logarithmicLoop i j n bs ! k = (if k < i then bs ! k else if k = i then j else 2 ^ k)"
      using IH(2) k unf Suc.prems(2) i by (auto simp: nth_list_update less_Suc_eq)
  qed
qed

lemma ceiling_log2_10: "\<lceil>log 2 (10::real)\<rceil> = 4"
  using ceiling_log_nat_eq_if[of 2 3 10] by simp

text \<open>
  Against claim C3 as stated: for the upper bound 10 the generator returns
  \<open>[0, 2, 4, 8]\<close>, not \<open>[1, 2, 4, 8]\<close>; its first element is the initial value
  \<open>0.0\<close> of \<open>j\<close>, not \<open>2 ^ 0\<close>.
\<close>

theorem LogarithmicSizedBucketsFor_10:
  "LogarithmicSizedBucketsFor 0 10 = Inr [0, 2, 4, 8]
   \<and> LogarithmicSizedBucketsFor 0 10 \<noteq> Inr [1, 2, 4, 8]"
proof -
  have "logarithmicLoop 0 0 4 [0, 0, 0, 0] = [0, 2, 4, 8]"
    by (simp add: logarithmicLoop.simps[where i = 0] logarithmicLoop.simps[where i = "Suc 0"]
        logarithmicLoop.simps[where i = "Suc (Suc 0)"]
        logarithmicLoop.simps[where i = "Suc (Suc (Suc 0))"]
        logarithmicLoop.simps[where i = "Suc (Suc (Suc (Suc 0)))"])
  moreover have "replicate 4 (0::real) = [0, 0, 0, 0]" by (simp add: numeral_eq_Suc)
  ultimately have "LogarithmicSizedBucketsFor 0 10 = Inr [0, 2, 4, 8]"
    by (simp add: LogarithmicSizedBucketsFor_def ceiling_log2_10)
  then show ?thesis by simp
qed

text \<open>
  Claim C3, amended. For every upper bound above 1 and every lower bound,
  \<open>LogarithmicSizedBucketsFor\<close> returns an array of length \<open>\<lceil>log\<^sub>2 upper\<rceil>\<close> whose
  element 0 is 0 and whose element \<open>i\<close>, for \<open>i \<ge> 1\<close>, is \<open>2 ^ i\<close>; the lower
  bound is not used.
\<close>

theorem LogarithmicSizedBucketsFor_powers:
  assumes "1 < upper"
  shows "\<exists>bs. LogarithmicSizedBucketsFor lower upper = Inr bs
      \<and> int (length bs) = \<lceil>log 2 upper\<rceil>
      \<and> (\<forall>i<length bs. bs ! i = (if i = 0 then 0 else 2 ^ i))"
proof -
  have "0 < log 2 upper" using assms by simp
  then have c: "0 < \<lceil>log 2 upper\<rceil>" by simp
  let ?n = "nat \<lceil>log 2 upper\<rceil>"
  have eq: "LogarithmicSizedBucketsFor lower upper
      = Inr (logarithmicLoop 0 0 ?n (replicate ?n 0))"
  proof -
    have "\<not> upper \<le> 0" using assms by simp
    moreover have "\<not> \<lceil>log 2 upper\<rceil> < 0" using c by linarith
    ultimately
    show ?thesis by (simp only: LogarithmicSizedBucketsFor_def if_False)
  qed
  have "length (logarithmicLoop 0 0 ?n (replicate ?n 0)) = ?n
    \<and> (\<forall>k<?n. logarithmicLoop 0 0 ?n (replicate ?n 0) ! k
          = (if k < 0 then replicate ?n 0 ! k else if k = 0 then 0 else 2 ^ k))"
    by (rule logarithmicLoop_spec) simp_all
  then show ?thesis using eq c by auto
qed

theorem LogarithmicSizedBucketsFor_powers_witness:
  "(1::real) < 10
   \<and> (\<exists>bs. LogarithmicSizedBucketsFor 3 10 = Inr bs \<and> length bs = 4
          \<and> bs ! 0 = 0 \<and> bs ! 1 = 2 \<and> bs ! 2 = 4 \<and> bs ! 3 = 8)"
proof -
  from LogarithmicSizedBucketsFor_powers[of 10 3] obtain bs where
    bs: "LogarithmicSizedBucketsFor 3 10 = Inr bs" "int (length bs) = \<lceil>log 2 (10::real)\<rceil>"
      "\<forall>i<length bs. bs ! i = (if i = 0 then 0 else 2 ^ i)"
    by auto
  have len: "length bs = 4" using bs(2) by (simp add: ceiling_log2_10)
  have "bs ! 0 = 0" "bs ! 1 = 2" "bs ! 2 = 4" "bs ! 3 = 8" using bs(3) len by simp_all
  then show ?thesis using bs(1) len by simp
qed

section \<open>Add, ResetAll and the engines a program can hold\<close>

lemma Add_eq:
  "Add S B h labels0 v =
     (let labels1 = (case labels0 of None \<Rightarrow> Map.empty | Some l \<Rightarrow> l);
          s = S labels1;
          hv = (case map_of (values_map h) s of
                  Some original \<Rightarrow> original
                | None \<Rightarrow> \<lparr>buckets = replicate (length (bucketStarts h)) (bucketMaker h ()),
                            labels = labels1\<rparr>);
          r = routedIndex (bucketStarts h) v
      in if r < length (buckets hv)
         then Inr (h\<lparr>values_map :=
                 AList.update s (hv\<lparr>buckets := (buckets hv)[r := Bucket_Add B v (buckets hv ! r)]\<rparr>)
                   (values_map h)\<rparr>)
         else Inl (IndexOutOfRange,
                 case map_of (values_map h) s of
                   Some original \<Rightarrow> h
                 | None \<Rightarrow> h\<lparr>values_map := AList.update s hv (values_map h)\<rparr>))"
  by (simp add: Add_def Let_def split: option.split)

lemma routedIndex_less:
  "starts \<noteq> [] \<Longrightarrow> routedIndex starts v < length starts"
proof -
  assume "starts \<noteq> []"
  then have "0 < length starts" by simp
  moreover have "length (takeWhile (\<lambda>s. s \<le> v) starts) \<le> length starts"
    by (rule length_takeWhile_le)
  ultimately show ?thesis unfolding routedIndex_takeWhile by linarith
qed

lemma routedIndex_Nil: "routedIndex [] v = 0"
  by (simp add: routedIndex_def)

lemma fold_delete_keys:
  "set (map fst m) \<subseteq> set (map fst xs) \<Longrightarrow> fold (\<lambda>(s, hv). AList.delete s) xs m = []"
proof (induction xs arbitrary: m)
  case Nil
  then show ?case by simp
next
  case (Cons x xs)
  obtain s hv where x: "x = (s, hv)" by (cases x)
  have "set (map fst (AList.delete s m)) \<subseteq> set (map fst xs)"
    using Cons.prems x by (auto simp: delete_keys)
  then show ?case using Cons.IH x by simp
qed

lemma ResetAllLoop_eq:
  "ResetAllLoop B xs m trace =
     (fold (\<lambda>(s, hv). AList.delete s) xs m,
      trace @ concat (map (\<lambda>(s, hv). resetBuckets B s (buckets hv) 0 @ [SeriesDeleted s]) xs))"
  by (induction xs arbitrary: m trace) auto

lemma ResetAll_eq:
  "ResetAll B h =
     (h\<lparr>values_map := []\<rparr>,
      concat (map (\<lambda>(s, hv). resetBuckets B s (buckets hv) 0 @ [SeriesDeleted s]) (values_map h)))"
  by (simp add: ResetAll_def ResetAllLoop_eq fold_delete_keys)

lemma resetBuckets_length: "length (resetBuckets B s bs k) = length bs"
  by (induction bs arbitrary: k) simp_all

lemma resetBuckets_nth:
  "i < length bs \<Longrightarrow> resetBuckets B s bs k ! i = BucketReset s (k + i) (Reset B (bs ! i))"
  by (induction bs arbitrary: k i) (auto simp: nth_Cons')

lemma reachable_invariant:
  assumes "reachable S B spec h"
  shows "bucketStarts h = Starts spec \<and> bucketMaker h = BucketBuilder spec
    \<and> reportablePercentiles h = ReportablePercentiles spec
    \<and> (\<forall>s hv. map_of (values_map h) s = Some hv \<longrightarrow> length (buckets hv) = length (Starts spec))"
  using assms
proof (induction rule: reachable.induct)
  case reachable_new
  then show ?case by (simp add: NewHistogram_def)
next
  case (reachable_Add h labels0 v h1)
  then show ?case
    by (auto simp: Add_eq Let_def update_conv' split: if_splits option.splits)
next
  case (reachable_Add_panic h labels0 v e h1)
  then show ?case
    by (auto simp: Add_eq Let_def update_conv' split: if_splits option.splits)
next
  case (reachable_ResetAll h)
  then show ?case by (simp add: ResetAll_eq)
qed

text \<open>
  Claim C10. \<open>NewHistogram\<close> checks nothing: from a specification without
  boundaries it builds an engine without boundaries and without series. On that
  engine, and on every engine it can become, every call of \<open>Add\<close> panics with an index
  out of range: the bucket array of the series is empty and the routed index is 0.
\<close>

theorem Add_panics_without_boundaries:
  assumes "Starts spec = []" and "reachable S B spec h"
  shows "bucketStarts (NewHistogram spec) = [] \<and> values_map (NewHistogram spec) = []
    \<and> (\<exists>h1. Add S B h labels0 v = Inl (IndexOutOfRange, h1))"
proof -
  from reachable_invariant[OF assms(2)] assms(1)
  have "bucketStarts h = []"
    "\<forall>s hv. map_of (values_map h) s = Some hv \<longrightarrow> buckets hv = []"
    by simp_all
  then have "\<exists>h1. Add S B h labels0 v = Inl (IndexOutOfRange, h1)"
    by (auto simp: Add_eq Let_def routedIndex_Nil split: option.splits)
  then show ?thesis using assms(1) by (simp add: NewHistogram_def)
qed

theorem Add_panics_without_boundaries_witness:
  "Starts \<lparr>BucketBuilder = NewExactBucket, ReportablePercentiles = [1 / 2], Starts = []\<rparr> = []
   \<and> reachable (\<lambda>l. []) ExactBucket
        \<lparr>BucketBuilder = NewExactBucket, ReportablePercentiles = [1 / 2], Starts = []\<rparr>
        (NewHistogram \<lparr>BucketBuilder = NewExactBucket, ReportablePercentiles = [1 / 2], Starts = []\<rparr>)
   \<and> (\<exists>h1. Add (\<lambda>l. []) ExactBucket
          (NewHistogram \<lparr>BucketBuilder = NewExactBucket, ReportablePercentiles = [1 / 2], Starts = []\<rparr>)
          None 7 = Inl (IndexOutOfRange, h1))"
  using Add_panics_without_boundaries[of
      "\<lparr>BucketBuilder = NewExactBucket, ReportablePercentiles = [1 / 2], Starts = []\<rparr>"
      "\<lambda>l. []" ExactBucket
      "NewHistogram \<lparr>BucketBuilder = NewExactBucket, ReportablePercentiles = [1 / 2], Starts = []\<rparr>"
      None 7]
    reachable_new[of "\<lambda>l. []" ExactBucket
      "\<lparr>BucketBuilder = NewExactBucket, ReportablePercentiles = [1 / 2], Starts = []\<rparr>"]
  by simp

lemma ResetAll_trace_order:
  assumes "(s, hv) \<in> set xs" "i < length (buckets hv)"
  shows "\<exists>j k. j < k
      \<and> k < length (concat (map (\<lambda>(s, hv). resetBuckets B s (buckets hv) 0 @ [SeriesDeleted s]) xs))
      \<and> concat (map (\<lambda>(s, hv). resetBuckets B s (buckets hv) 0 @ [SeriesDeleted s]) xs) ! j
           = BucketReset s i (Reset B (buckets hv ! i))
      \<and> concat (map (\<lambda>(s, hv). resetBuckets B s (buckets hv) 0 @ [SeriesDeleted s]) xs) ! k
           = SeriesDeleted s"
proof -
  let ?f = "\<lambda>(s, hv). resetBuckets B s (buckets hv) 0 @ [SeriesDeleted s]"
  from assms(1) obtain pre post where xs: "xs = pre @ (s, hv) # post"
    by (auto dest: split_list)
  let ?A = "concat (map ?f pre)"
  let ?R = "resetBuckets B s (buckets hv) 0"
  let ?C = "concat (map ?f post)"
  have tr: "concat (map ?f xs) = ?A @ ?R @ [SeriesDeleted s] @ ?C"
    using xs by simp
  have lR: "length ?R = length (buckets hv)" by (rule resetBuckets_length)
  have j: "concat (map ?f xs) ! (length ?A + i) = BucketReset s i (Reset B (buckets hv ! i))"
    unfolding tr using assms(2) lR by (simp add: nth_append resetBuckets_nth)
  have k: "concat (map ?f xs) ! (length ?A + length (buckets hv)) = SeriesDeleted s"
    unfolding tr using lR by (simp add: nth_append)
  have a: "length ?A + i < length ?A + length (buckets hv)" using assms(2) by simp
  have b: "length ?A + length (buckets hv) < length (concat (map ?f xs))"
    unfolding tr using lR by simp
  show ?thesis
    by (rule exI[of _ "length ?A + i"], rule exI[of _ "length ?A + length (buckets hv)"])
       (intro conjI a b j k)
qed

text \<open>
  Claim C8. \<open>ResetAll\<close> leaves the engine \<open>NewHistogram\<close> builds from the same
  configuration: no series, and the boundaries, the bucket factory and the
  reportable percentiles as they were; a snapshot of it lists no series. In the trace
  of the call, for every bucket of every series the engine tracked, the call of that
  bucket's \<open>Reset\<close> comes before the removal of its series. A following \<open>Add\<close> (the
  engine having a boundary) builds the series anew from fresh buckets and adds its
  value to the routed one.
\<close>

theorem ResetAll_clears:
  "fst (ResetAll B h)
      = NewHistogram \<lparr>BucketBuilder = bucketMaker h,
                      ReportablePercentiles = reportablePercentiles h,
                      Starts = bucketStarts h\<rparr>
   \<and> values_map (fst (ResetAll B h)) = []
   \<and> bucketStarts (fst (ResetAll B h)) = bucketStarts h
   \<and> bucketMaker (fst (ResetAll B h)) = bucketMaker h
   \<and> reportablePercentiles (fst (ResetAll B h)) = reportablePercentiles h
   \<and> AsMarshallable formatFloat B (fst (ResetAll B h)) = Inr []
   \<and> (\<forall>s hv i. (s, hv) \<in> set (values_map h) \<and> i < length (buckets hv) \<longrightarrow>
        (\<exists>j k. j < k \<and> k < length (snd (ResetAll B h))
           \<and> snd (ResetAll B h) ! j = BucketReset s i (Reset B (buckets hv ! i))
           \<and> snd (ResetAll B h) ! k = SeriesDeleted s))
   \<and> (bucketStarts h \<noteq> [] \<longrightarrow>
        Add S B (fst (ResetAll B h)) labels0 v
          = Inr ((fst (ResetAll B h))\<lparr>values_map :=
               [(S (case labels0 of None \<Rightarrow> Map.empty | Some l \<Rightarrow> l),
                 \<lparr>buckets = (replicate (length (bucketStarts h)) (bucketMaker h ()))
                              [routedIndex (bucketStarts h) v := Bucket_Add B v (bucketMaker h ())],
                  labels = (case labels0 of None \<Rightarrow> Map.empty | Some l \<Rightarrow> l)\<rparr>)]\<rparr>))"
proof -
  have c1: "fst (ResetAll B h)
      = NewHistogram \<lparr>BucketBuilder = bucketMaker h,
                      ReportablePercentiles = reportablePercentiles h,
                      Starts = bucketStarts h\<rparr>"
    by (simp add: ResetAll_eq NewHistogram_def)
  have c2: "values_map (fst (ResetAll B h)) = []"
    "bucketStarts (fst (ResetAll B h)) = bucketStarts h"
    "bucketMaker (fst (ResetAll B h)) = bucketMaker h"
    "reportablePercentiles (fst (ResetAll B h)) = reportablePercentiles h"
    by (simp_all add: ResetAll_eq)
  have c3: "AsMarshallable formatFloat B (fst (ResetAll B h)) = Inr []"
    by (simp add: AsMarshallable_def ResetAll_eq)
  have c4: "\<forall>s hv i. (s, hv) \<in> set (values_map h) \<and> i < length (buckets hv) \<longrightarrow>
        (\<exists>j k. j < k \<and> k < length (snd (ResetAll B h))
           \<and> snd (ResetAll B h) ! j = BucketReset s i (Reset B (buckets hv ! i))
           \<and> snd (ResetAll B h) ! k = SeriesDeleted s)"
    using ResetAll_trace_order[of _ _ "values_map h" _ B] by (simp add: ResetAll_eq)
  have c5: "bucketStarts h \<noteq> [] \<longrightarrow>
        Add S B (fst (ResetAll B h)) labels0 v
          = Inr ((fst (ResetAll B h))\<lparr>values_map :=
               [(S (case labels0 of None \<Rightarrow> Map.empty | Some l \<Rightarrow> l),
                 \<lparr>buckets = (replicate (length (bucketStarts h)) (bucketMaker h ()))
                              [routedIndex (bucketStarts h) v := Bucket_Add B v (bucketMaker h ())],
                  labels = (case labels0 of None \<Rightarrow> Map.empty | Some l \<Rightarrow> l)\<rparr>)]\<rparr>)"
  proof
    assume "bucketStarts h \<noteq> []"
    then have "routedIndex (bucketStarts h) v < length (bucketStarts h)"
      by (rule routedIndex_less)
    then show "Add S B (fst (ResetAll B h)) labels0 v
          = Inr ((fst (ResetAll B h))\<lparr>values_map :=
               [(S (case labels0 of None \<Rightarrow> Map.empty | Some l \<Rightarrow> l),
                 \<lparr>buckets = (replicate (length (bucketStarts h)) (bucketMaker h ()))
                              [routedIndex (bucketStarts h) v := Bucket_Add B v (bucketMaker h ())],
                  labels = (case labels0 of None \<Rightarrow> Map.empty | Some l \<Rightarrow> l)\<rparr>)]\<rparr>)"
      by (simp add: Add_eq Let_def ResetAll_eq)
  qed
  show ?thesis using c1 c2 c3 c4 c5 by blast
qed

theorem ResetAll_clears_witness:
  "(([]::string), \<lparr>buckets = [[3, 3, 3, 3, 3], [], [25, 25, 25, 25, 25]], labels = Map.empty\<rparr>)
      \<in> set (values_map (scenarioEngine (\<lambda>l. [])))
   \<and> bucketStarts (scenarioEngine (\<lambda>l. [])) \<noteq> []
   \<and> values_map (fst (ResetAll ExactBucket (scenarioEngine (\<lambda>l. [])))) = []
   \<and> snd (ResetAll ExactBucket (scenarioEngine (\<lambda>l. [])))
        = [BucketReset [] 0 [], BucketReset [] 1 [], BucketReset [] 2 [], SeriesDeleted []]
   \<and> (\<exists>j k. j < k \<and> k < length (snd (ResetAll ExactBucket (scenarioEngine (\<lambda>l. []))))
         \<and> snd (ResetAll ExactBucket (scenarioEngine (\<lambda>l. []))) ! j = BucketReset [] 2 []
         \<and> snd (ResetAll ExactBucket (scenarioEngine (\<lambda>l. []))) ! k = SeriesDeleted [])
   \<and> AsMarshallable (\<lambda>x. []) ExactBucket (fst (ResetAll ExactBucket (scenarioEngine (\<lambda>l. [])))) = Inr []
   \<and> Add (\<lambda>l. []) ExactBucket (fst (ResetAll ExactBucket (scenarioEngine (\<lambda>l. [])))) None 12
       = Inr \<lparr>bucketMaker = NewExactBucket, bucketStarts = [0, 10, 20],
              values_map = [([], \<lparr>buckets = [[], [12], []], labels = Map.empty\<rparr>)],
              reportablePercentiles = [1 / 2, 1]\<rparr>"
proof -
  let ?h = "scenarioEngine (\<lambda>l. [])"
  let ?hv = "\<lparr>buckets = [[3, 3, 3, 3, 3], [], [25, 25, 25, 25, 25 :: real]], labels = Map.empty :: LabelSet\<rparr>"
  note T = ResetAll_clears[of ExactBucket ?h "\<lambda>x. []" "\<lambda>l. []" None 12]
  have mem: "([], ?hv) \<in> set (values_map ?h)" by (simp add: scenarioEngine_def)
  have st: "bucketStarts ?h \<noteq> []" by (simp add: scenarioEngine_def)
  have tr: "snd (ResetAll ExactBucket ?h)
        = [BucketReset [] 0 [], BucketReset [] 1 [], BucketReset [] 2 [], SeriesDeleted []]"
    by (simp add: ResetAll_eq scenarioEngine_def ExactBucket_simps)
  from T have all: "\<forall>s hv i. (s, hv) \<in> set (values_map ?h) \<and> i < length (buckets hv) \<longrightarrow>
        (\<exists>j k. j < k \<and> k < length (snd (ResetAll ExactBucket ?h))
           \<and> snd (ResetAll ExactBucket ?h) ! j = BucketReset s i (Reset ExactBucket (buckets hv ! i))
           \<and> snd (ResetAll ExactBucket ?h) ! k = SeriesDeleted s)"
    by (elim conjE)
  from T have emp: "values_map (fst (ResetAll ExactBucket ?h)) = []"
    by (elim conjE)
  from T have snap: "AsMarshallable (\<lambda>x. []) ExactBucket (fst (ResetAll ExactBucket ?h)) = Inr []"
    by (elim conjE)
  have "(2::nat) < length (buckets ?hv)" by simp
  with all[rule_format, of "[]" ?hv 2] mem
  have "\<exists>j k. j < k \<and> k < length (snd (ResetAll ExactBucket ?h))
         \<and> snd (ResetAll ExactBucket ?h) ! j = BucketReset [] 2 (Reset ExactBucket (buckets ?hv ! 2))
         \<and> snd (ResetAll ExactBucket ?h) ! k = SeriesDeleted []"
    by blast
  then have ord: "\<exists>j k. j < k \<and> k < length (snd (ResetAll ExactBucket ?h))
         \<and> snd (ResetAll ExactBucket ?h) ! j = BucketReset [] 2 []
         \<and> snd (ResetAll ExactBucket ?h) ! k = SeriesDeleted []"
    by (simp only: ExactBucket_simps)
  have add: "Add (\<lambda>l. []) ExactBucket (fst (ResetAll ExactBucket ?h)) None 12
       = Inr \<lparr>bucketMaker = NewExactBucket, bucketStarts = [0, 10, 20],
              values_map = [([], \<lparr>buckets = [[], [12], []], labels = Map.empty\<rparr>)],
              reportablePercentiles = [1 / 2, 1]\<rparr>"
    by (simp add: scenarioEngine_def ResetAll_eq Add_eq Let_def routedIndex_def ExactBucket_simps
        NewExactBucket_def)
  show ?thesis using mem st emp tr ord snap add by (intro conjI)
qed

section \<open>Sequences of Add\<close>

lemma AddAll_append:
  "AddAll S B h (xs @ ys) =
     (case AddAll S B h xs of Inl e \<Rightarrow> Inl e | Inr h1 \<Rightarrow> AddAll S B h1 ys)"
  by (induction xs arbitrary: h) (auto split: sum.splits)

lemma bucketAfter_snoc: "bucketAfter B fresh (vs @ [v]) = Bucket_Add B v (bucketAfter B fresh vs)"
  by (simp add: bucketAfter_def)

lemma bucketAfter_Nil: "bucketAfter B fresh [] = fresh"
  by (simp add: bucketAfter_def)

lemma routedTo_snoc:
  "routedTo starts k (vs @ [v]) =
     (if routedIndex starts v = k then routedTo starts k vs @ [v] else routedTo starts k vs)"
  by (simp add: routedTo_def)

lemma valuesFor_snoc:
  "valuesFor S s (calls @ [(l, v)]) =
     (if S (labelsOrEmpty l) = s then valuesFor S s calls @ [v] else valuesFor S s calls)"
  by (simp add: valuesFor_def)

lemma valuesFor_Nil_iff:
  "valuesFor S s calls = [] \<longleftrightarrow> (\<forall>c\<in>set calls. S (labelsOrEmpty (fst c)) \<noteq> s)"
  by (auto simp: valuesFor_def filter_empty_conv)

lemma buckets_step:
  assumes "r < n" "r = routedIndex starts v"
  shows "(map (\<lambda>k. bucketAfter B fresh (routedTo starts k vs)) [0..<n])
           [r := Bucket_Add B v (map (\<lambda>k. bucketAfter B fresh (routedTo starts k vs)) [0..<n] ! r)]
         = map (\<lambda>k. bucketAfter B fresh (routedTo starts k (vs @ [v]))) [0..<n]"
  using assms
  by (intro nth_equalityI) (auto simp: nth_list_update routedTo_snoc bucketAfter_snoc)

lemma AddAll_series:
  assumes ne: "Starts spec \<noteq> []"
  shows "\<exists>h. AddAll S B (NewHistogram spec) calls = Inr h
    \<and> bucketStarts h = Starts spec \<and> bucketMaker h = BucketBuilder spec
    \<and> reportablePercentiles h = ReportablePercentiles spec
    \<and> (\<forall>s. map_option buckets (map_of (values_map h) s) =
          (if valuesFor S s calls = [] then None
           else Some (map (\<lambda>k. bucketAfter B (BucketBuilder spec ())
                                  (routedTo (Starts spec) k (valuesFor S s calls)))
                        [0..<length (Starts spec)])))"
proof (induction calls rule: rev_induct)
  case Nil
  show ?case by (simp add: NewHistogram_def valuesFor_def)
next
  case (snoc c calls)
  obtain l v where c: "c = (l, v)" by (cases c)
  let ?n = "length (Starts spec)"
  let ?fresh = "BucketBuilder spec ()"
  let ?bs = "\<lambda>vs. map (\<lambda>k. bucketAfter B ?fresh (routedTo (Starts spec) k vs)) [0..<?n]"
  from snoc obtain h where
    run: "AddAll S B (NewHistogram spec) calls = Inr h"
    and cfg: "bucketStarts h = Starts spec" "bucketMaker h = BucketBuilder spec"
      "reportablePercentiles h = ReportablePercentiles spec"
    and ser: "\<forall>s. map_option buckets (map_of (values_map h) s) =
          (if valuesFor S s calls = [] then None else Some (?bs (valuesFor S s calls)))"
    by blast
  let ?s0 = "S (labelsOrEmpty l)"
  let ?r = "routedIndex (Starts spec) v"
  let ?hv = "case map_of (values_map h) ?s0 of
               Some original \<Rightarrow> original
             | None \<Rightarrow> \<lparr>buckets = replicate ?n ?fresh, labels = labelsOrEmpty l\<rparr>"
  have r: "?r < ?n" using ne by (rule routedIndex_less)
  have old: "buckets ?hv = ?bs (valuesFor S ?s0 calls)"
  proof (cases "map_of (values_map h) ?s0")
    case None
    then have "valuesFor S ?s0 calls = []" using ser[rule_format, of ?s0] by (simp split: if_splits)
    then show ?thesis using None
      by (simp add: routedTo_def bucketAfter_Nil map_replicate_const)
  next
    case (Some hv)
    then show ?thesis using ser[rule_format, of ?s0] by (simp split: if_splits)
  qed
  then have len: "length (buckets ?hv) = ?n" by simp
  let ?hv1 = "?hv\<lparr>buckets := (buckets ?hv)[?r := Bucket_Add B v (buckets ?hv ! ?r)]\<rparr>"
  let ?h1 = "h\<lparr>values_map := AList.update ?s0 ?hv1 (values_map h)\<rparr>"
  have step: "Add S B h l v = Inr ?h1"
    unfolding Add_eq Let_def labelsOrEmpty_def[symmetric] cfg(1,2) using r len by simp
  have new: "buckets ?hv1 = ?bs (valuesFor S ?s0 calls @ [v])"
    using buckets_step[OF r refl, of B ?fresh "valuesFor S ?s0 calls"] old by simp
  have "AddAll S B (NewHistogram spec) (calls @ [c]) = Inr ?h1"
    using run step c by (simp add: AddAll_append)
  moreover have "bucketStarts ?h1 = Starts spec" "bucketMaker ?h1 = BucketBuilder spec"
    "reportablePercentiles ?h1 = ReportablePercentiles spec"
    using cfg by simp_all
  moreover have "\<forall>s. map_option buckets (map_of (values_map ?h1) s) =
          (if valuesFor S s (calls @ [c]) = [] then None else Some (?bs (valuesFor S s (calls @ [c]))))"
  proof
    fix s
    show "map_option buckets (map_of (values_map ?h1) s) =
          (if valuesFor S s (calls @ [c]) = [] then None else Some (?bs (valuesFor S s (calls @ [c]))))"
    proof (cases "s = ?s0")
      case True
      then show ?thesis using new c by (simp add: update_conv' valuesFor_snoc)
    next
      case False
      then show ?thesis using ser[rule_format, of s] c by (simp add: update_conv' valuesFor_snoc)
    qed
  qed
  ultimately show ?case by blast
qed

lemma Observations_bucketAfter:
  assumes "Observations B fresh = 0"
    and "\<forall>b v. Observations B (Bucket_Add B v b) = Observations B b + 1"
  shows "Observations B (bucketAfter B fresh vs) = int (length vs)"
  using assms by (induction vs rule: rev_induct) (simp_all add: bucketAfter_Nil bucketAfter_snoc)

lemma routed_partition:
  assumes "\<forall>v\<in>set vs. f v < n"
  shows "(\<Sum>k\<leftarrow>[0..<n]. int (length (filter (\<lambda>v. f v = k) vs))) = int (length vs)"
  using assms
proof (induction vs)
  case Nil
  then show ?case by simp
next
  case (Cons x vs)
  have "(\<Sum>k\<leftarrow>[0..<n]. int (length (filter (\<lambda>v. f v = k) (x # vs))))
      = (\<Sum>k\<leftarrow>[0..<n]. (if f x = k then 1 else 0) + int (length (filter (\<lambda>v. f v = k) vs)))"
    by (intro arg_cong[where f = sum_list] map_cong) simp_all
  also have "\<dots> = (\<Sum>k\<leftarrow>[0..<n]. if f x = k then 1 else 0)
      + (\<Sum>k\<leftarrow>[0..<n]. int (length (filter (\<lambda>v. f v = k) vs)))"
    by (simp add: sum_list_addf)
  also have "(\<Sum>k\<leftarrow>[0..<n]. if f x = k then 1 else 0) = (1::int)"
    using Cons.prems by (simp add: interv_sum_list_conv_sum_set_nat)
  finally show ?case using Cons by simp
qed

lemma AddAll_no_boundaries:
  assumes "Starts spec = []" "AddAll S B (NewHistogram spec) calls = Inr h"
  shows "calls = [] \<and> h = NewHistogram spec"
proof (cases calls)
  case Nil
  then show ?thesis using assms(2) by simp
next
  case (Cons c rest)
  obtain l v where "c = (l, v)" by (cases c)
  moreover have "\<exists>h1. Add S B (NewHistogram spec) l v = Inl (IndexOutOfRange, h1)"
    using assms(1) by (simp add: Add_eq Let_def NewHistogram_def routedIndex_Nil)
  ultimately show ?thesis using assms(2) Cons by auto
qed

text \<open>
  Claim C7. With a bucket whose count is 0 when made and grows by one with every
  value added, a sequence of calls of \<open>Add\<close> on a new engine runs to its end when the
  engine has a boundary; and whenever it runs to its end, for every signature the
  counts of the buckets of its series (0 when the engine tracks none) add up to the
  number of calls made with that signature.
\<close>

theorem Add_counts:
  assumes fresh0: "Observations B (BucketBuilder spec ()) = 0"
    and counting: "\<forall>b v. Observations B (Bucket_Add B v b) = Observations B b + 1"
  shows "(Starts spec \<noteq> [] \<longrightarrow> (\<exists>h. AddAll S B (NewHistogram spec) calls = Inr h))
    \<and> (\<forall>h s. AddAll S B (NewHistogram spec) calls = Inr h \<longrightarrow>
          (case map_of (values_map h) s of None \<Rightarrow> 0 | Some hv \<Rightarrow> seriesTotal B hv)
            = int (length (filter (\<lambda>c. S (labelsOrEmpty (fst c)) = s) calls)))"
proof (cases "Starts spec = []")
  case True
  have "(case map_of (values_map h) s of None \<Rightarrow> 0 | Some hv \<Rightarrow> seriesTotal B hv)
            = int (length (filter (\<lambda>c. S (labelsOrEmpty (fst c)) = s) calls))"
    if "AddAll S B (NewHistogram spec) calls = Inr h" for h s
    using AddAll_no_boundaries[OF True that] by (simp add: NewHistogram_def)
  then show ?thesis using True by blast
next
  case False
  let ?n = "length (Starts spec)"
  let ?fresh = "BucketBuilder spec ()"
  from AddAll_series[OF False, of S B calls] obtain h0 where
    run: "AddAll S B (NewHistogram spec) calls = Inr h0"
    and ser: "\<forall>s. map_option buckets (map_of (values_map h0) s) =
          (if valuesFor S s calls = [] then None
           else Some (map (\<lambda>k. bucketAfter B ?fresh (routedTo (Starts spec) k (valuesFor S s calls)))
                        [0..<?n]))"
    by blast
  have cnt: "(case map_of (values_map h0) s of None \<Rightarrow> 0 | Some hv \<Rightarrow> seriesTotal B hv)
            = int (length (filter (\<lambda>c. S (labelsOrEmpty (fst c)) = s) calls))" for s
  proof (cases "map_of (values_map h0) s")
    case None
    then have "valuesFor S s calls = []" using ser[rule_format, of s] by (simp split: if_splits)
    then show ?thesis using None by (simp add: valuesFor_def)
  next
    case (Some hv)
    let ?vs = "valuesFor S s calls"
    have b: "buckets hv = map (\<lambda>k. bucketAfter B ?fresh (routedTo (Starts spec) k ?vs)) [0..<?n]"
      using Some ser[rule_format, of s] by (simp split: if_splits)
    have "seriesTotal B hv
        = (\<Sum>k\<leftarrow>[0..<?n]. int (length (filter (\<lambda>v. routedIndex (Starts spec) v = k) ?vs)))"
      unfolding seriesTotal_def b
      by (simp add: comp_def Observations_bucketAfter[OF fresh0 counting] routedTo_def)
    also have "\<dots> = int (length ?vs)"
      using False by (intro routed_partition) (simp add: routedIndex_less)
    finally show ?thesis using Some by (simp add: valuesFor_def)
  qed
  show ?thesis using run cnt by auto
qed

theorem Add_counts_witness:
  "Observations ExactBucket (NewExactBucket ()) = 0
   \<and> (\<forall>b v. Observations ExactBucket (Bucket_Add ExactBucket v b) = Observations ExactBucket b + 1)
   \<and> AddAll (\<lambda>l. []) ExactBucket
        (NewHistogram \<lparr>BucketBuilder = NewExactBucket, ReportablePercentiles = [1 / 2, 1],
                       Starts = [0, 10, 20]\<rparr>) scenarioCalls
       = Inr (scenarioEngine (\<lambda>l. []))
   \<and> seriesTotal ExactBucket
        \<lparr>buckets = [[3, 3, 3, 3, 3], [], [25, 25, 25, 25, 25]], labels = Map.empty\<rparr>
       = int (length scenarioCalls)"
proof -
  let ?spec = "\<lparr>BucketBuilder = NewExactBucket, ReportablePercentiles = [1 / 2, 1],
                 Starts = [0, 10, 20]\<rparr>"
  have f0: "Observations ExactBucket (BucketBuilder ?spec ()) = 0"
    by (simp add: ExactBucket_simps NewExactBucket_def)
  have cn: "\<forall>b v. Observations ExactBucket (Bucket_Add ExactBucket v b) = Observations ExactBucket b + 1"
    by (simp add: ExactBucket_simps)
  have run: "AddAll (\<lambda>l. []) ExactBucket (NewHistogram ?spec) scenarioCalls = Inr (scenarioEngine (\<lambda>l. []))"
    by (rule scenario_AddAll)
  from Add_counts[OF f0 cn, of "\<lambda>l. []" scenarioCalls, THEN conjunct2, rule_format, OF run, of "[]"]
  have "seriesTotal ExactBucket
        \<lparr>buckets = [[3, 3, 3, 3, 3], [], [25, 25, 25, 25, 25]], labels = Map.empty\<rparr>
       = int (length scenarioCalls)"
    using scenario_series[of "\<lambda>l. []"] by simp
  then show ?thesis using f0 cn run by simp
qed

section \<open>Monotonicity of the percentile estimate\<close>

lemma length_takeWhile_mono:
  "(\<And>x. P x \<Longrightarrow> Q x) \<Longrightarrow> length (takeWhile P xs) \<le> length (takeWhile Q xs)"
  by (induction xs) auto

lemma routedIndex_mono:
  assumes "v \<le> v'"
  shows "routedIndex starts v \<le> routedIndex starts v'"
proof -
  have "length (takeWhile (\<lambda>s. s \<le> v) starts) \<le> length (takeWhile (\<lambda>s. s \<le> v') starts)"
    using assms by (intro length_takeWhile_mono) simp
  then show ?thesis unfolding routedIndex_takeWhile by simp
qed

lemma ExactBucket_after: "bucketAfter ExactBucket [] vs = vs"
  by (induction vs rule: rev_induct) (simp_all add: bucketAfter_Nil bucketAfter_snoc ExactBucket_simps)

lemma ExactBucket_returnsHeldValues: "returnsHeldValues ExactBucket []"
  unfolding returnsHeldValues_def
proof (intro allI impI)
  fix vs :: "real list" and i :: int
  assume "0 \<le> i \<and> i < Observations ExactBucket (bucketAfter ExactBucket [] vs)"
  then have "0 \<le> i \<and> i < int (length vs)"
    by (simp add: ExactBucket_after ExactBucket_simps)
  then have i: "0 \<le> i" "nat i < length vs" by linarith+
  then have "ValueForIndex ExactBucket (bucketAfter ExactBucket [] vs) i = vs ! nat i"
    by (simp add: ExactBucket_after ExactBucket_simps nat_less_iff)
  moreover have "vs ! nat i \<in> set vs" using i by simp
  ultimately show "\<exists>u\<in>set vs. \<exists>w\<in>set vs.
      u \<le> ValueForIndex ExactBucket (bucketAfter ExactBucket [] vs) i
      \<and> ValueForIndex ExactBucket (bucketAfter ExactBucket [] vs) i \<le> w"
    by auto
qed

lemma ExactBucket_ascending:
  assumes "sorted b" "0 \<le> i \<and> i \<le> j \<and> j < Observations ExactBucket b"
  shows "ValueForIndex ExactBucket b i \<le> ValueForIndex ExactBucket b j"
proof -
  from assms(2) have "0 \<le> i" "i \<le> j" "j < int (length b)" by (simp_all add: ExactBucket_simps)
  then have "nat i \<le> nat j" "nat j < length b" by linarith+
  then have "b ! nat i \<le> b ! nat j" using assms(1) by (simp add: sorted_nth_mono)
  then show ?thesis using \<open>0 \<le> i\<close> \<open>i \<le> j\<close> \<open>j < int (length b)\<close>
    by (simp add: ExactBucket_simps)
qed

text \<open>
  Claim C6. Take the series of a signature in an engine that a sequence of calls of
  \<open>Add\<close> built from a new engine, with a bucket that keeps to its contract (its
  counts are not negative and \<open>ValueForIndex\<close>, for an index below the count,
  answers with a value between two of those it was given). If in each bucket of the
  series \<open>ValueForIndex\<close> ascends with the index, then for percentiles
  \<open>0 < p1 \<le> p2 \<le> 1\<close> both queries return a value and the estimate for \<open>p1\<close> is at
  most the estimate for \<open>p2\<close>.
\<close>

theorem percentile_monotone:
  assumes run: "AddAll S B (NewHistogram spec) calls = Inr h"
    and series: "map_of (values_map h) s = Some hv"
    and held: "returnsHeldValues B (BucketBuilder spec ())"
    and nonneg: "\<forall>b\<in>set (buckets hv). 0 \<le> Observations B b"
    and ascending: "\<forall>b\<in>set (buckets hv). \<forall>i j.
        0 \<le> i \<and> i \<le> j \<and> j < Observations B b \<longrightarrow> ValueForIndex B b i \<le> ValueForIndex B b j"
    and p: "0 < p1" "p1 \<le> p2" "p2 \<le> 1"
  shows "\<exists>x1 x2. percentile B h s p1 = Inr x1 \<and> percentile B h s p2 = Inr x2 \<and> x1 \<le> x2"
proof -
  let ?n = "length (Starts spec)"
  let ?fresh = "BucketBuilder spec ()"
  let ?vs = "valuesFor S s calls"
  let ?os = "map (Observations B) (buckets hv)"
  let ?t = "seriesTotal B hv"
  have ne: "Starts spec \<noteq> []"
  proof
    assume "Starts spec = []"
    from AddAll_no_boundaries[OF this run] have "values_map h = []" by (simp add: NewHistogram_def)
    then show False using series by simp
  qed
  from AddAll_series[OF ne, of S B calls] run have
    cfg: "bucketStarts h = Starts spec"
    and ser: "\<forall>s. map_option buckets (map_of (values_map h) s) =
          (if valuesFor S s calls = [] then None
           else Some (map (\<lambda>k. bucketAfter B ?fresh (routedTo (Starts spec) k (valuesFor S s calls)))
                        [0..<?n]))"
    by auto
  have bs: "buckets hv = map (\<lambda>k. bucketAfter B ?fresh (routedTo (Starts spec) k ?vs)) [0..<?n]"
    using series ser[rule_format, of s] by (simp split: if_splits)
  then have len: "length (buckets hv) = length (bucketStarts h)" using cfg by simp
  have nth: "buckets hv ! k = bucketAfter B ?fresh (routedTo (Starts spec) k ?vs)" if "k < ?n" for k
    using bs that by simp
  have nn: "\<forall>x\<in>set ?os. 0 \<le> x" using nonneg by simp
  have p1: "0 \<le> p1" "p1 \<le> 1" and p2: "0 \<le> p2" "p2 \<le> 1" using p by simp_all
  show ?thesis
  proof (cases "?t = 0")
    case True
    have "bucketForPercentileLoops B h s p1 = Inr None" "bucketForPercentileLoops B h s p2 = Inr None"
      using series len nonneg True by (rule bucketForPercentileLoops_empty)+
    then have "percentile B h s p1 = Inr (ValueForIndex B (buckets hv ! 0) 0)"
      "percentile B h s p2 = Inr (ValueForIndex B (buckets hv ! 0) 0)"
      using series len ne cfg by (simp_all add: percentile_def bucketForPercentile_def)
    then show ?thesis by simp
  next
    case False
    have "0 \<le> ?t"
      using observedBefore_nonneg[OF nn, of "length ?os"]
      by (simp add: observedBefore_all seriesTotal_def)
    then have pos: "0 < ?t" using False by simp
    let ?i1 = "prospectiveIndexForPercentile p1 ?t"
    let ?i2 = "prospectiveIndexForPercentile p2 ?t"
    from bucketForPercentileLoops_locates[OF series len nonneg pos p1] obtain b1 where b1:
      "bucketForPercentileLoops B h s p1 = Inr (Some (Inr (b1, ?i1 - observedBefore ?os b1)))"
      "b1 < length (buckets hv)" "observedBefore ?os b1 \<le> ?i1" "?i1 < observedBefore ?os (Suc b1)"
      by blast
    from bucketForPercentileLoops_locates[OF series len nonneg pos p2] obtain b2 where b2:
      "bucketForPercentileLoops B h s p2 = Inr (Some (Inr (b2, ?i2 - observedBefore ?os b2)))"
      "b2 < length (buckets hv)" "observedBefore ?os b2 \<le> ?i2" "?i2 < observedBefore ?os (Suc b2)"
      by blast
    let ?s1 = "?i1 - observedBefore ?os b1"
    let ?s2 = "?i2 - observedBefore ?os b2"
    let ?x1 = "ValueForIndex B (buckets hv ! b1) ?s1"
    let ?x2 = "ValueForIndex B (buckets hv ! b2) ?s2"
    have q1: "percentile B h s p1 = Inr ?x1"
      using b1(1) series by (simp add: percentile_def bucketForPercentile_def)
    have q2: "percentile B h s p2 = Inr ?x2"
      using b2(1) series by (simp add: percentile_def bucketForPercentile_def)
    have idx: "?i1 \<le> ?i2" using p(2) pos by (intro prospectiveIndex_mono) simp_all
    have st1: "observedBefore ?os (Suc b1) = observedBefore ?os b1 + Observations B (buckets hv ! b1)"
      using b1(2) by (simp add: observedBefore_Suc)
    have st2: "observedBefore ?os (Suc b2) = observedBefore ?os b2 + Observations B (buckets hv ! b2)"
      using b2(2) by (simp add: observedBefore_Suc)
    have in1: "0 \<le> ?s1" "?s1 < Observations B (buckets hv ! b1)" using b1(3,4) st1 by simp_all
    have in2: "0 \<le> ?s2" "?s2 < Observations B (buckets hv ! b2)" using b2(3,4) st2 by simp_all
    have le: "b1 \<le> b2"
    proof (rule ccontr)
      assume "\<not> b1 \<le> b2"
      then have "Suc b2 \<le> b1" by simp
      then have "observedBefore ?os (Suc b2) \<le> observedBefore ?os b1"
        using nn b1(2) by (intro observedBefore_mono) simp_all
      then show False using b1(3) b2(4) idx by simp
    qed
    have "?x1 \<le> ?x2"
    proof (cases "b1 = b2")
      case True
      have "buckets hv ! b2 \<in> set (buckets hv)" using b2(2) by simp
      moreover have "0 \<le> ?s1 \<and> ?s1 \<le> ?i2 - observedBefore ?os b1
          \<and> ?i2 - observedBefore ?os b1 < Observations B (buckets hv ! b2)"
        using in1 in2 idx True by simp
      ultimately show ?thesis using ascending True by simp
    next
      case False
      then have lt: "b1 < b2" using le by simp
      have n1: "b1 < ?n" and n2: "b2 < ?n" using b1(2) b2(2) len cfg by simp_all
      from held[unfolded returnsHeldValues_def, rule_format,
          of ?s1 "routedTo (Starts spec) b1 ?vs"] in1 nth[OF n1]
      obtain w where w: "w \<in> set (routedTo (Starts spec) b1 ?vs)" "?x1 \<le> w" by auto
      from held[unfolded returnsHeldValues_def, rule_format,
          of ?s2 "routedTo (Starts spec) b2 ?vs"] in2 nth[OF n2]
      obtain u where u: "u \<in> set (routedTo (Starts spec) b2 ?vs)" "u \<le> ?x2" by auto
      have rw: "routedIndex (Starts spec) w = b1" and ru: "routedIndex (Starts spec) u = b2"
        using w(1) u(1) by (simp_all add: routedTo_def)
      have "w < u"
      proof (rule ccontr)
        assume "\<not> w < u"
        then have "u \<le> w" by simp
        then have "routedIndex (Starts spec) u \<le> routedIndex (Starts spec) w"
          by (rule routedIndex_mono)
        then show False using rw ru lt by simp
      qed
      then show ?thesis using w(2) u(2) by simp
    qed
    then show ?thesis using q1 q2 by simp
  qed
qed

theorem percentile_monotone_witness:
  "AddAll (\<lambda>l. []) ExactBucket
     (NewHistogram \<lparr>BucketBuilder = NewExactBucket, ReportablePercentiles = [1 / 2, 1],
                    Starts = [0, 10, 20]\<rparr>) scenarioCalls
     = Inr (scenarioEngine (\<lambda>l. []))
   \<and> returnsHeldValues ExactBucket (NewExactBucket ())
   \<and> (0::real) < 1 / 2 \<and> (1 / 2 :: real) \<le> 1
   \<and> percentile ExactBucket (scenarioEngine (\<lambda>l. [])) [] (1 / 2) = Inr 3
   \<and> percentile ExactBucket (scenarioEngine (\<lambda>l. [])) [] 1 = Inr 25
   \<and> (\<exists>x1 x2. percentile ExactBucket (scenarioEngine (\<lambda>l. [])) [] (1 / 2) = Inr x1
         \<and> percentile ExactBucket (scenarioEngine (\<lambda>l. [])) [] 1 = Inr x2 \<and> x1 \<le> x2)"
proof -
  let ?spec = "\<lparr>BucketBuilder = NewExactBucket, ReportablePercentiles = [1 / 2, 1],
                 Starts = [0, 10, 20]\<rparr>"
  let ?hv = "\<lparr>buckets = [[3, 3, 3, 3, 3], [], [25, 25, 25, 25, 25 :: real]],
               labels = Map.empty :: LabelSet\<rparr>"
  have run: "AddAll (\<lambda>l. []) ExactBucket (NewHistogram ?spec) scenarioCalls
      = Inr (scenarioEngine (\<lambda>l. []))"
    by (rule scenario_AddAll)
  have series: "map_of (values_map (scenarioEngine (\<lambda>l. []))) [] = Some ?hv"
    using scenario_series[of "\<lambda>l. []"] by simp
  have held: "returnsHeldValues ExactBucket (BucketBuilder ?spec ())"
    using ExactBucket_returnsHeldValues by (simp add: NewExactBucket_def)
  have nonneg: "\<forall>b\<in>set (buckets ?hv). 0 \<le> Observations ExactBucket b"
    by (simp add: ExactBucket_simps)
  have "\<forall>b\<in>set (buckets ?hv). sorted b" by simp
  then have ascending: "\<forall>b\<in>set (buckets ?hv). \<forall>i j.
        0 \<le> i \<and> i \<le> j \<and> j < Observations ExactBucket b
          \<longrightarrow> ValueForIndex ExactBucket b i \<le> ValueForIndex ExactBucket b j"
    using ExactBucket_ascending by blast
  have p: "(0::real) < 1 / 2" "(1 / 2 :: real) \<le> 1" "(1::real) \<le> 1" by simp_all
  note mono = percentile_monotone[OF run series held nonneg ascending p]
  have q: "percentile ExactBucket (scenarioEngine (\<lambda>l. [])) [] (1 / 2) = Inr 3"
    "percentile ExactBucket (scenarioEngine (\<lambda>l. [])) [] 1 = Inr 25"
    using scenario_percentile[of "\<lambda>l. []"] by simp_all
  have h2: "returnsHeldValues ExactBucket (NewExactBucket ())"
    using ExactBucket_returnsHeldValues by (simp add: NewExactBucket_def)
  show ?thesis using run h2 p(1,2) q mono by (intro conjI)
qed

end
